theory Spec2Isabelle
  imports Complex_Main "HOL-Library.Char_ord" "HOL-Library.List_Lexorder" "HOL-Library.Word"
begin

section \<open>JavaScript strings\<close>

text \<open>
  A JavaScript string is a sequence of UTF-16 code units. The model uses \<^typ>\<open>string\<close>;
  a \<^typ>\<open>char\<close> stands for the code unit with the same number (U+0000 to U+00FF), so
  \<open>length\<close> is the \<open>.length\<close> of the source and the order on strings
  (lexicographic, by code unit) is the one of \<open>>=\<close> and of \<open>Array.prototype.sort()\<close>
  without a comparator.
\<close>

text \<open>
  \<open>String.prototype.trim\<close> removes ECMAScript WhiteSpace and LineTerminator code points from
  both ends. In the range of the model these are TAB, LF, VT, FF, CR, SPACE and NBSP.
\<close>

definition isWhiteSpace :: "char \<Rightarrow> bool" where
  "isWhiteSpace c = ((of_char c :: nat) \<in> {9, 10, 11, 12, 13, 32, 160})"

definition trim :: "string \<Rightarrow> string" where
  "trim s = rev (dropWhile isWhiteSpace (rev (dropWhile isWhiteSpace s)))"

text \<open>
  \<open>String.prototype.toLowerCase\<close>, code unit by code unit: the letters A to Z and the
  Latin-1 capitals U+00C0 to U+00DE (without the multiplication sign U+00D7) move up by 32.
\<close>

definition lowerChar :: "char \<Rightarrow> char" where
  "lowerChar c =
     (let n = (of_char c :: nat)
      in if (65 \<le> n \<and> n \<le> 90) \<or> (192 \<le> n \<and> n \<le> 222 \<and> n \<noteq> 215)
         then char_of (n + 32) else c)"

definition toLowerCase :: "string \<Rightarrow> string" where
  "toLowerCase s = map lowerChar s"

section \<open>Node's path module on directory entries\<close>

text \<open>
  \<open>fs.promises.readdir\<close> yields entry names: no path separator, no drive prefix, never
  \<open>.\<close> or \<open>..\<close>. On such names \<open>path.extname\<close> returns the text from the last dot to the
  end, and the empty string when there is no dot, when the only dot is the first
  character, or when the name is \<open>..\<close>.
\<close>

definition extname :: "string \<Rightarrow> string" where
  "extname p =
     (if CHR ''.'' \<in> set p
      then (let after = rev (takeWhile (\<lambda>c. c \<noteq> CHR ''.'') (rev p));
                startDot = length p - Suc (length after)
            in if startDot = 0 \<or> p = ''..'' then [] else drop startDot p)
      else [])"

text \<open>
  \<open>path.basename(p, suffix)\<close> on an entry name removes \<open>suffix\<close> when it is not empty
  and the name ends with it, comparing code units: the comparison is case-sensitive on
  every platform.
\<close>

definition basename :: "string \<Rightarrow> string \<Rightarrow> string" where
  "basename p sfx =
     (if sfx \<noteq> [] \<and> length sfx \<le> length p \<and> drop (length p - length sfx) p = sfx
      then take (length p - length sfx) p else p)"

section \<open>Completions, the file system and the console\<close>

datatype error = ReaddirError | ReadFileError string | RangeError | TypeError

text \<open>How a block of code ends: with a value, or by throwing.\<close>

datatype 'a completion = Return 'a | Throw error

text \<open>
  One directory as the handlers see it. \<open>entries\<close> is the result of
  \<open>fs.promises.readdir(dir)\<close>, \<open>readText f\<close> that of
  \<open>fs.promises.readFile(path.join(dir, f), 'utf-8')\<close> and \<open>readBytes f\<close> that of
  \<open>fs.promises.readFile(path.join(dir, f))\<close>; \<open>None\<close> is a rejected promise.
\<close>

record directory =
  entries :: "string list option"
  readText :: "string \<Rightarrow> string option"
  readBytes :: "string \<Rightarrow> 8 word list option"

section \<open>The get-announcements handler\<close>

record announcement =
  content :: string

text \<open>The body of the \<open>for (const file of files)\<close> loop, with \<open>announcements\<close> as accumulator.\<close>

fun announcementsLoop ::
  "directory \<Rightarrow> string list \<Rightarrow> announcement list \<Rightarrow> announcement list completion" where
  "announcementsLoop d [] announcements = Return announcements"
| "announcementsLoop d (file # files) announcements =
     (if toLowerCase (extname file) = ''.txt''
      then (case readText d file of
              None \<Rightarrow> Throw (ReadFileError file)
            | Some text \<Rightarrow>
                (let trimmedContent = trim text
                 in if length trimmedContent > 0 \<and> length trimmedContent \<le> 100
                    then announcementsLoop d files
                           (announcements @ [\<lparr>content = trimmedContent\<rparr>])
                    else announcementsLoop d files announcements))
      else announcementsLoop d files announcements)"

text \<open>The \<open>try\<close> block of the handler.\<close>

definition announcementsTry :: "directory \<Rightarrow> announcement list completion" where
  "announcementsTry d =
     (case entries d of
        None \<Rightarrow> Throw ReaddirError
      | Some files \<Rightarrow> announcementsLoop d files [])"

text \<open>
  The handler: the completion seen by the caller, and the errors passed to
  \<open>console.error\<close>.
\<close>

definition getAnnouncements :: "directory \<Rightarrow> announcement list completion \<times> error list" where
  "getAnnouncements d =
     (case announcementsTry d of
        Return announcements \<Rightarrow> (Return announcements, [])
      | Throw e \<Rightarrow> (Return [], [e]))"

section \<open>Plain objects used as dictionaries\<close>

text \<open>
  The source keeps its tables in object literals \<open>{}\<close>. Such an object is modelled by its
  own enumerable properties in creation order. Two facts of the language are part of the
  model, since the code reads the tables with \<open>obj[key]\<close> and walks them with
  \<open>for ... in\<close> and \<open>Object.keys\<close>:
  \<^item> own keys are enumerated with the array indices first, in ascending numeric order,
    and the other keys after them in creation order;
  \<^item> \<open>obj[key]\<close> also finds the properties that every object literal inherits from
    \<open>Object.prototype\<close>.
\<close>

type_synonym 'v object = "(string \<times> 'v) list"

text \<open>Assignment \<open>obj[key] = v\<close>: an existing own property keeps its place, a new one goes last.\<close>

fun setProp :: "string \<Rightarrow> 'v \<Rightarrow> 'v object \<Rightarrow> 'v object" where
  "setProp k v [] = [(k, v)]"
| "setProp k v (p # ps) = (if fst p = k then (k, v) # ps else p # setProp k v ps)"

definition isDigit :: "char \<Rightarrow> bool" where
  "isDigit c = (c \<in> set ''0123456789'')"

definition digitValue :: "char \<Rightarrow> int" where
  "digitValue c = int (length (takeWhile (\<lambda>d. d \<noteq> c) ''0123456789''))"

definition decimalValue :: "string \<Rightarrow> int" where
  "decimalValue s = foldl (\<lambda>n c. 10 * n + digitValue c) 0 s"

text \<open>
  An array index is a canonical numeric string (decimal digits, no leading zero except
  for \<open>0\<close> itself) whose value is at most \<open>2^32 - 2\<close>.
\<close>

definition isArrayIndex :: "string \<Rightarrow> bool" where
  "isArrayIndex s =
     (s \<noteq> [] \<and> list_all isDigit s \<and> (s = ''0'' \<or> hd s \<noteq> CHR ''0'')
      \<and> decimalValue s \<le> 4294967294)"

text \<open>The order in which \<open>for ... in\<close> and \<open>Object.keys\<close> visit a list of own keys.\<close>

definition enumerationOrder :: "string list \<Rightarrow> string list" where
  "enumerationOrder ks =
     sort_key decimalValue (filter isArrayIndex ks) @ filter (\<lambda>k. \<not> isArrayIndex k) ks"

definition ownKeys :: "'v object \<Rightarrow> string list" where
  "ownKeys obj = enumerationOrder (map fst obj)"

text \<open>
  The properties of \<open>Object.prototype\<close>: eleven methods and the accessor
  \<open>__proto__\<close>, which yields \<open>Object.prototype\<close> itself. All are truthy and none is
  enumerable.
\<close>

definition prototypeMethods :: "string list" where
  "prototypeMethods =
     [''constructor'', ''__defineGetter__'', ''__defineSetter__'', ''hasOwnProperty'',
      ''__lookupGetter__'', ''__lookupSetter__'', ''isPrototypeOf'',
      ''propertyIsEnumerable'', ''toString'', ''valueOf'', ''toLocaleString'']"

definition prototypeKeys :: "string list" where
  "prototypeKeys = ''__proto__'' # prototypeMethods"

section \<open>The get-news-articles handler\<close>

record article =
  type :: string
  title :: string
  description :: string
  imagePath :: "string option"

text \<open>The own properties of one value of \<open>fileGroups\<close>.\<close>

record group =
  textFile :: "string option"
  imageFile :: "string option"

text \<open>
  Two library calls of the handler are parameters of the model: \<open>mime.lookup(name)\<close>
  (\<open>None\<close> for a falsy result) and \<open>buffer.toString('base64')\<close>.
\<close>

record library =
  mimeLookup :: "string \<Rightarrow> string option"
  base64 :: "8 word list \<Rightarrow> string"

text \<open>
  What \<open>fileGroups[baseName]\<close> evaluates to. Besides the own groups and the standard
  properties of \<open>Object.prototype\<close> there are the enumerable properties that the handler
  itself can add to \<open>Object.prototype\<close> (see \<open>assignFile\<close>); they are kept in a second
  table \<open>proto\<close>, which outlives the call.
\<close>

datatype slot = OwnGroup group | Method | Prototype | Inherited string | Undefined

definition lookupGroup :: "group object \<Rightarrow> string object \<Rightarrow> string \<Rightarrow> slot" where
  "lookupGroup fileGroups proto k =
     (case map_of fileGroups k of
        Some g \<Rightarrow> OwnGroup g
      | None \<Rightarrow>
          if k = ''__proto__'' then Prototype
          else if k \<in> set prototypeMethods then Method
          else (case map_of proto k of Some s \<Rightarrow> Inherited s | None \<Rightarrow> Undefined))"

fun truthy :: "slot \<Rightarrow> bool" where
  "truthy (Inherited s) = (s \<noteq> [])"
| "truthy Undefined = False"
| "truthy v = True"

datatype field = TextFile | ImageFile

definition fieldName :: "field \<Rightarrow> string" where
  "fieldName fld = (case fld of TextFile \<Rightarrow> ''textFile'' | ImageFile \<Rightarrow> ''imageFile'')"

definition setField :: "field \<Rightarrow> string \<Rightarrow> group \<Rightarrow> group" where
  "setField fld file g =
     (case fld of
        TextFile \<Rightarrow> g\<lparr>textFile := Some file\<rparr>
      | ImageFile \<Rightarrow> g\<lparr>imageFile := Some file\<rparr>)"

text \<open>
  \<open>fileGroups[baseName].textFile = file\<close> (or \<open>.imageFile\<close>). The target is an own group;
  or a method of \<open>Object.prototype\<close>, and the property set on that function is never read
  by the handler; or \<open>Object.prototype\<close> itself; or an inherited string, on which the
  assignment has no effect (main.js is not in strict mode); or \<open>undefined\<close>, which throws.
\<close>

definition assignFile ::
  "field \<Rightarrow> string \<Rightarrow> string \<Rightarrow> group object \<times> string object
   \<Rightarrow> (group object \<times> string object) completion" where
  "assignFile fld baseName file st =
     (case st of (fileGroups, proto) \<Rightarrow>
        (case lookupGroup fileGroups proto baseName of
           OwnGroup g \<Rightarrow> Return (setProp baseName (setField fld file g) fileGroups, proto)
         | Method \<Rightarrow> Return (fileGroups, proto)
         | Prototype \<Rightarrow> Return (fileGroups, setProp (fieldName fld) file proto)
         | Inherited s \<Rightarrow> Return (fileGroups, proto)
         | Undefined \<Rightarrow> Throw TypeError))"

definition imageExtensions :: "string list" where
  "imageExtensions = [''.jpg'', ''.jpeg'', ''.png'', ''.gif'', ''.bmp'']"

text \<open>The body of the first loop, \<open>for (const file of files)\<close>.\<close>

definition groupStep ::
  "string \<Rightarrow> group object \<times> string object \<Rightarrow> (group object \<times> string object) completion" where
  "groupStep file st =
     (case st of (fileGroups, proto) \<Rightarrow>
        (let ext = toLowerCase (extname file);
             baseName = basename file ext;
             fileGroups1 =
               (if \<not> truthy (lookupGroup fileGroups proto baseName)
                then setProp baseName \<lparr>textFile = None, imageFile = None\<rparr> fileGroups
                else fileGroups)
         in if ext = ''.txt'' then assignFile TextFile baseName file (fileGroups1, proto)
            else if ext \<in> set imageExtensions
            then assignFile ImageFile baseName file (fileGroups1, proto)
            else Return (fileGroups1, proto)))"

fun groupFiles ::
  "string list \<Rightarrow> group object \<times> string object \<Rightarrow> (group object \<times> string object) completion" where
  "groupFiles [] st = Return st"
| "groupFiles (file # files) st =
     (case groupStep file st of Throw e \<Rightarrow> Throw e | Return st1 \<Rightarrow> groupFiles files st1)"

text \<open>
  The keys that \<open>for (const baseName in fileGroups)\<close> visits: the own keys, then the
  enumerable keys of \<open>Object.prototype\<close> that no own key hides.
\<close>

definition forInKeys :: "group object \<Rightarrow> string object \<Rightarrow> string list" where
  "forInKeys fileGroups proto =
     ownKeys fileGroups @ filter (\<lambda>k. k \<notin> set (map fst fileGroups)) (ownKeys proto)"

text \<open>
  \<open>group.textFile\<close> and \<open>group.imageFile\<close> as the second loop reads them from
  \<open>group = fileGroups[baseName]\<close>: the own property, and without one the property of that
  name on \<open>Object.prototype\<close>.
\<close>

definition readField :: "field \<Rightarrow> slot \<Rightarrow> string object \<Rightarrow> string option" where
  "readField fld v proto =
     (case v of
        OwnGroup g \<Rightarrow>
          (case (case fld of TextFile \<Rightarrow> textFile g | ImageFile \<Rightarrow> imageFile g) of
             Some f \<Rightarrow> Some f
           | None \<Rightarrow> map_of proto (fieldName fld))
      | _ \<Rightarrow> map_of proto (fieldName fld))"

text \<open>
  A string or \<open>undefined\<close> used as a condition is true for a string that is not empty:
  \<open>truthyName\<close> keeps such a string.
\<close>

definition truthyName :: "string option \<Rightarrow> string option" where
  "truthyName v = (case v of Some f \<Rightarrow> if f = [] then None else Some f | None \<Rightarrow> None)"

text \<open>The \<open>if (group.imageFile)\<close> block: the value of \<open>imageData\<close> afterwards.\<close>

definition loadImage ::
  "library \<Rightarrow> directory \<Rightarrow> string option \<Rightarrow> string option completion" where
  "loadImage lib d img =
     (case truthyName img of
        None \<Rightarrow> Return None
      | Some f \<Rightarrow>
          (case readBytes d f of
             None \<Rightarrow> Throw (ReadFileError f)
           | Some imageBuffer \<Rightarrow>
               (let mimeType =
                      (case mimeLookup lib f of
                         Some m \<Rightarrow> m
                       | None \<Rightarrow> ''application/octet-stream'')
                in Return (Some (''data:'' @ mimeType @ '';base64,''
                                   @ base64 lib imageBuffer)))))"

text \<open>
  The three-way branch that pushes at most one article for \<open>baseName\<close>: both names
  truthy; else the text name truthy; else the image name truthy.
\<close>

definition emitArticle ::
  "directory \<Rightarrow> string \<Rightarrow> string option \<Rightarrow> string option \<Rightarrow> string option
   \<Rightarrow> article list \<Rightarrow> article list completion" where
  "emitArticle d baseName txt img imageData articles =
     (case (truthyName txt, truthyName img) of
        (Some t, Some i) \<Rightarrow>
          (case readText d t of
             None \<Rightarrow> Throw (ReadFileError t)
           | Some textContent \<Rightarrow>
               Return (articles @ [\<lparr>type = ''article'', title = baseName,
                                     description = trim textContent, imagePath = imageData\<rparr>]))
      | (Some t, None) \<Rightarrow>
          (case readText d t of
             None \<Rightarrow> Throw (ReadFileError t)
           | Some textContent \<Rightarrow>
               Return (articles @ [\<lparr>type = ''article'', title = baseName,
                                     description = trim textContent, imagePath = None\<rparr>]))
      | (None, Some i) \<Rightarrow>
          Return (articles @ [\<lparr>type = ''article'', title = baseName,
                                description = [], imagePath = imageData\<rparr>])
      | (None, None) \<Rightarrow> Return articles)"

text \<open>The second loop, over the keys of \<open>fileGroups\<close>.\<close>

fun emitLoop ::
  "library \<Rightarrow> directory \<Rightarrow> group object \<Rightarrow> string object \<Rightarrow> string list
   \<Rightarrow> article list \<Rightarrow> article list completion" where
  "emitLoop lib d fileGroups proto [] articles = Return articles"
| "emitLoop lib d fileGroups proto (baseName # ks) articles =
     (let v = lookupGroup fileGroups proto baseName;
          txt = readField TextFile v proto;
          img = readField ImageFile v proto
      in case loadImage lib d img of
           Throw e \<Rightarrow> Throw e
         | Return imageData \<Rightarrow>
             (case emitArticle d baseName txt img imageData articles of
                Throw e \<Rightarrow> Throw e
              | Return articles1 \<Rightarrow> emitLoop lib d fileGroups proto ks articles1))"

text \<open>
  The \<open>try\<close> block: its completion and the table \<open>proto\<close> it leaves behind.
\<close>

definition newsTry ::
  "library \<Rightarrow> directory \<Rightarrow> string object \<Rightarrow> article list completion \<times> string object" where
  "newsTry lib d proto =
     (case entries d of
        None \<Rightarrow> (Throw ReaddirError, proto)
      | Some files \<Rightarrow>
          (case groupFiles files ([], proto) of
             Throw e \<Rightarrow> (Throw e, proto)
           | Return (fileGroups, proto1) \<Rightarrow>
               (emitLoop lib d fileGroups proto1 (forInKeys fileGroups proto1) [], proto1)))"

text \<open>
  The handler: the completion seen by the caller, the errors passed to
  \<open>console.error\<close>, and \<open>proto\<close> after the call.
\<close>

definition getNewsArticles ::
  "library \<Rightarrow> directory \<Rightarrow> string object
   \<Rightarrow> article list completion \<times> error list \<times> string object" where
  "getNewsArticles lib d proto =
     (case newsTry lib d proto of
        (Return articles, proto1) \<Rightarrow> (Return articles, [], proto1)
      | (Throw e, proto1) \<Rightarrow> (Return [], [e], proto1))"

section \<open>processForecastData (Weather.js)\<close>

text \<open>
  A JavaScript number that is not NaN: the temperatures come out of JSON, which has no
  NaN, and the loop starts from \<open>Infinity\<close> and \<open>-Infinity\<close>. Comparison of such numbers
  is exact, so finite values are modelled as reals.
\<close>

datatype number = NegInfinity | Finite real | Infinity

instantiation number :: linorder
begin

fun less_eq_number :: "number \<Rightarrow> number \<Rightarrow> bool" where
  "less_eq_number NegInfinity y = True"
| "less_eq_number (Finite a) NegInfinity = False"
| "less_eq_number (Finite a) (Finite b) = (a \<le> b)"
| "less_eq_number (Finite a) Infinity = True"
| "less_eq_number Infinity y = (y = Infinity)"

definition less_number :: "number \<Rightarrow> number \<Rightarrow> bool" where
  "less_number x y = (x \<le> y \<and> \<not> y \<le> (x :: number))"

instance
proof
  fix x y z :: number
  show "(x < y) = (x \<le> y \<and> \<not> y \<le> x)" by (simp add: less_number_def)
  show "x \<le> x" by (cases x) auto
  show "x \<le> y \<Longrightarrow> y \<le> z \<Longrightarrow> x \<le> z" by (cases x; cases y; cases z) auto
  show "x \<le> y \<Longrightarrow> y \<le> x \<Longrightarrow> x = y" by (cases x; cases y) auto
  show "x \<le> y \<or> y \<le> x" by (cases x; cases y) auto
qed

end

text \<open>One element of \<open>data.list\<close>: \<open>item.dt\<close>, \<open>item.main.temp\<close> and \<open>item.weather[0].main\<close>.\<close>

record sample =
  dt :: int
  temp :: number
  main :: string

record dayForecast =
  date :: string
  temp_min :: number
  temp_max :: number
  condition :: "string option"

subsection \<open>The date part of Date.prototype.toISOString\<close>

text \<open>Day number (days since 1970-01-01) to year, month and day of the Gregorian calendar.\<close>

definition civilFromDays :: "int \<Rightarrow> int \<times> int \<times> int" where
  "civilFromDays days =
     (let z = days + 719468;
          era = z div 146097;
          doe = z mod 146097;
          yoe = (doe - doe div 1460 + doe div 36524 - doe div 146096) div 365;
          doy = doe - (365 * yoe + yoe div 4 - yoe div 100);
          mp = (5 * doy + 2) div 153;
          d = doy - (153 * mp + 2) div 5 + 1;
          m = (if mp < 10 then mp + 3 else mp - 9);
          y = yoe + era * 400 + (if m \<le> 2 then 1 else 0)
      in (y, m, d))"

primrec padded :: "nat \<Rightarrow> nat \<Rightarrow> string" where
  "padded 0 n = []"
| "padded (Suc w) n = padded w (n div 10) @ [''0123456789'' ! (n mod 10)]"

definition yearString :: "int \<Rightarrow> string" where
  "yearString y =
     (if 0 \<le> y \<and> y \<le> 9999 then padded 4 (nat y)
      else (if y < 0 then ''-'' else ''+'') @ padded 6 (nat \<bar>y\<bar>))"

text \<open>
  \<open>new Date(ms).toISOString().split('T')[0]\<close>. A time value beyond 8.64e15 ms on either
  side gives an invalid Date, for which \<open>toISOString\<close> throws a RangeError
  (\<open>None\<close>).
\<close>

definition toISODate :: "int \<Rightarrow> string option" where
  "toISODate ms =
     (if \<bar>ms\<bar> > 8640000000000000 then None
      else (case civilFromDays (ms div 86400000) of
              (y, m, d) \<Rightarrow>
                Some (yearString y @ ''-'' @ padded 2 (nat m) @ ''-'' @ padded 2 (nat d))))"

definition dateString :: "sample \<Rightarrow> string option" where
  "dateString item = toISODate (dt item * 1000)"

subsection \<open>Grouping by date\<close>

text \<open>
  The \<open>data.list.forEach\<close> loop. \<open>groupedData[dateString]\<close> is an own array, or nothing,
  or a property inherited from \<open>Object.prototype\<close>, which has no \<open>push\<close>.
\<close>

fun groupLoop ::
  "sample list \<Rightarrow> sample list object \<Rightarrow> sample list object completion" where
  "groupLoop [] groupedData = Return groupedData"
| "groupLoop (item # items) groupedData =
     (case dateString item of
        None \<Rightarrow> Throw RangeError
      | Some ds \<Rightarrow>
          (case map_of groupedData ds of
             Some dayData \<Rightarrow> groupLoop items (setProp ds (dayData @ [item]) groupedData)
           | None \<Rightarrow>
               if ds \<in> set prototypeKeys then Throw TypeError
               else groupLoop items (setProp ds [item] groupedData)))"

subsection \<open>One day\<close>

text \<open>
  A value of \<open>conditionCounts\<close>. \<open>conditionCounts[c]++\<close> on an inherited method stores
  NaN, which is falsy and never greater than \<open>maxCount\<close>.
\<close>

datatype count = NaN | Count nat

text \<open>
  \<open>if (conditionCounts[condition]) conditionCounts[condition]++; else
  conditionCounts[condition] = 1\<close>. On \<open>__proto__\<close> the increment calls the inherited
  setter with NaN, which does nothing.
\<close>

definition countCondition :: "string \<Rightarrow> count object \<Rightarrow> count object" where
  "countCondition c conditionCounts =
     (case map_of conditionCounts c of
        Some (Count n) \<Rightarrow>
          if n \<noteq> 0 then setProp c (Count (n + 1)) conditionCounts
          else setProp c (Count 1) conditionCounts
      | Some NaN \<Rightarrow> setProp c (Count 1) conditionCounts
      | None \<Rightarrow>
          if c = ''__proto__'' then conditionCounts
          else if c \<in> set prototypeMethods then setProp c NaN conditionCounts
          else setProp c (Count 1) conditionCounts)"

record dayState =
  minTemp :: number
  maxTemp :: number
  conditionCounts :: "count object"

text \<open>The body of \<open>dayData.forEach\<close>.\<close>

definition dayStep :: "sample \<Rightarrow> dayState \<Rightarrow> dayState" where
  "dayStep item st =
     \<lparr>minTemp = (if temp item < minTemp st then temp item else minTemp st),
      maxTemp = (if temp item > maxTemp st then temp item else maxTemp st),
      conditionCounts = countCondition (main item) (conditionCounts st)\<rparr>"

fun dayLoop :: "sample list \<Rightarrow> dayState \<Rightarrow> dayState" where
  "dayLoop [] st = st"
| "dayLoop (item # items) st = dayLoop items (dayStep item st)"

text \<open>
  The \<open>for (const condition in conditionCounts)\<close> loop over the keys in enumeration
  order, with \<open>(mostCommonCondition, maxCount)\<close> as state.
\<close>

fun mostCommonLoop ::
  "count object \<Rightarrow> string list \<Rightarrow> string option \<times> nat \<Rightarrow> string option \<times> nat" where
  "mostCommonLoop cc [] st = st"
| "mostCommonLoop cc (c # cs) (mostCommonCondition, maxCount) =
     (case map_of cc c of
        Some (Count n) \<Rightarrow>
          if n > maxCount then mostCommonLoop cc cs (Some c, n)
          else mostCommonLoop cc cs (mostCommonCondition, maxCount)
      | _ \<Rightarrow> mostCommonLoop cc cs (mostCommonCondition, maxCount))"

text \<open>The callback of \<open>dates.slice(0, 4).map\<close>.\<close>

definition dayRecord :: "string \<Rightarrow> sample list \<Rightarrow> dayForecast" where
  "dayRecord d dayData =
     (let st = dayLoop dayData
                 \<lparr>minTemp = Infinity, maxTemp = NegInfinity, conditionCounts = []\<rparr>;
          cc = conditionCounts st
      in \<lparr>date = d, temp_min = minTemp st, temp_max = maxTemp st,
          condition = fst (mostCommonLoop cc (ownKeys cc) (None, 0))\<rparr>)"

subsection \<open>The whole function\<close>

fun dailyData :: "sample list object \<Rightarrow> string list \<Rightarrow> dayForecast list completion" where
  "dailyData groupedData [] = Return []"
| "dailyData groupedData (d # ds) =
     (case map_of groupedData d of
        None \<Rightarrow> Throw TypeError
      | Some dayData \<Rightarrow>
          (case dailyData groupedData ds of
             Throw e \<Rightarrow> Throw e
           | Return recs \<Rightarrow> Return (dayRecord d dayData # recs)))"

text \<open>
  \<open>processForecastData(data)\<close> at the time \<open>now\<close> (milliseconds since the epoch, the
  value of \<open>new Date()\<close>), with \<open>data.list\<close> as the list of samples.
\<close>

definition processForecastData :: "int \<Rightarrow> sample list \<Rightarrow> dayForecast list completion" where
  "processForecastData now items =
     (case groupLoop items [] of
        Throw e \<Rightarrow> Throw e
      | Return groupedData \<Rightarrow>
          (case toISODate now of
             None \<Rightarrow> Throw RangeError
           | Some todayDateString \<Rightarrow>
               (let dates = sort (filter (\<lambda>d. d \<ge> todayDateString) (ownKeys groupedData))
                in dailyData groupedData (take 4 dates))))"

section \<open>Vocabulary of the claims\<close>

text \<open>The distinct elements of a list, in the order of their first occurrence.\<close>

definition firstSeen :: "'a list \<Rightarrow> 'a list" where
  "firstSeen xs = rev (remdups (rev xs))"

text \<open>The day bucket of a date string: the samples of that date, in input order.\<close>

definition dayBucket :: "sample list \<Rightarrow> string \<Rightarrow> sample list" where
  "dayBucket items d = filter (\<lambda>i. dateString i = Some d) items"

text \<open>The time values (in milliseconds) that a Date can hold.\<close>

definition validTime :: "int \<Rightarrow> bool" where
  "validTime ms = (\<bar>ms\<bar> \<le> 8640000000000000)"

text \<open>The table of occurrence counts of a list of labels, keys in order of first occurrence.\<close>

definition tally :: "string list \<Rightarrow> count object" where
  "tally ls = map (\<lambda>l. (l, Count (count_list ls l))) (firstSeen ls)"

text \<open>The number that the loop over \<open>conditionCounts\<close> compares with \<open>maxCount\<close>.\<close>

definition countOf :: "count object \<Rightarrow> string \<Rightarrow> nat" where
  "countOf cc k = (case map_of cc k of Some (Count n) \<Rightarrow> n | _ \<Rightarrow> 0)"

text \<open>
  The tie-break as the specification words it: scanning the labels in order with running
  counts, the first label whose running count reaches the highest occurrence count.
\<close>

fun reachMax :: "nat \<Rightarrow> string list \<Rightarrow> string list \<Rightarrow> string option" where
  "reachMax m seen [] = None"
| "reachMax m seen (l # ls) =
     (if count_list (seen @ [l]) l = m then Some l else reachMax m (seen @ [l]) ls)"

definition specFirstToReachMax :: "string list \<Rightarrow> string option" where
  "specFirstToReachMax ls = reachMax (fold max (map (count_list ls) ls) 0) [] ls"

text \<open>
  The reads that the second loop of the news handler performs for the key \<open>k\<close> succeed.
\<close>

definition readable :: "directory \<Rightarrow> group object \<Rightarrow> string object \<Rightarrow> string \<Rightarrow> bool" where
  "readable d fileGroups proto k =
     (let v = lookupGroup fileGroups proto k;
          txt = readField TextFile v proto;
          img = readField ImageFile v proto
      in (case truthyName img of Some i \<Rightarrow> readBytes d i \<noteq> None | None \<Rightarrow> True)
         \<and> (case truthyName txt of Some t \<Rightarrow> readText d t \<noteq> None | None \<Rightarrow> True))"

text \<open>The key under which the first loop of the news handler files an entry.\<close>

definition fileKey :: "string \<Rightarrow> string" where
  "fileKey f = basename f (toLowerCase (extname f))"

text \<open>The two tests of the first loop on the lower-cased extension.\<close>

definition isText :: "string \<Rightarrow> bool" where
  "isText f = (toLowerCase (extname f) = ''.txt'')"

definition isImage :: "string \<Rightarrow> bool" where
  "isImage f = (toLowerCase (extname f) \<in> set imageExtensions)"

definition recognized :: "string \<Rightarrow> bool" where
  "recognized f = (isText f \<or> isImage f)"

text \<open>The stem as the specification defines it: the filename with its extension removed.\<close>

definition specStem :: "string \<Rightarrow> string" where
  "specStem f = take (length f - length (extname f)) f"

text \<open>
  The last entry of a listing that has the key \<open>k\<close> and satisfies \<open>P\<close>; the group of a key
  (last one wins); and the table of groups, keys in order of first occurrence.
\<close>

definition lastFile :: "(string \<Rightarrow> bool) \<Rightarrow> string \<Rightarrow> string list \<Rightarrow> string option" where
  "lastFile P k files = List.find (\<lambda>f. fileKey f = k \<and> P f) (rev files)"

definition groupOf :: "string list \<Rightarrow> string \<Rightarrow> group" where
  "groupOf files k = \<lparr>textFile = lastFile isText k files, imageFile = lastFile isImage k files\<rparr>"

definition groupsOf :: "string list \<Rightarrow> group object" where
  "groupsOf files = map (\<lambda>k. (k, groupOf files k)) (firstSeen (map fileKey files))"

text \<open>A group for which the second loop pushes an article.\<close>

definition hasFile :: "group \<Rightarrow> bool" where
  "hasFile g = (truthyName (textFile g) \<noteq> None \<or> truthyName (imageFile g) \<noteq> None)"

text \<open>The value of \<open>imageData\<close> for the image entry \<open>f\<close> with the given bytes.\<close>

definition dataURI :: "library \<Rightarrow> string \<Rightarrow> 8 word list \<Rightarrow> string" where
  "dataURI lib f bytes =
     ''data:'' @ (case mimeLookup lib f of Some m \<Rightarrow> m | None \<Rightarrow> ''application/octet-stream'')
       @ '';base64,'' @ base64 lib bytes"

text \<open>
  The articles (none or one) for the key \<open>s\<close>, when \<open>texts\<close> and \<open>images\<close> give the contents
  of the entries.
\<close>

definition articleFor ::
  "library \<Rightarrow> (string \<Rightarrow> string) \<Rightarrow> (string \<Rightarrow> 8 word list) \<Rightarrow> string list \<Rightarrow> string
   \<Rightarrow> article list" where
  "articleFor lib texts images files s =
     (case (lastFile isText s files, lastFile isImage s files) of
        (Some t, Some i) \<Rightarrow>
          [\<lparr>type = ''article'', title = s, description = trim (texts t),
            imagePath = Some (dataURI lib i (images i))\<rparr>]
      | (Some t, None) \<Rightarrow>
          [\<lparr>type = ''article'', title = s, description = trim (texts t), imagePath = None\<rparr>]
      | (None, Some i) \<Rightarrow>
          [\<lparr>type = ''article'', title = s, description = [],
            imagePath = Some (dataURI lib i (images i))\<rparr>]
      | (None, None) \<Rightarrow> [])"

text \<open>
  A key for which the second loop pushes an article: \<open>group.textFile\<close> or
  \<open>group.imageFile\<close>, read from \<open>fileGroups[baseName]\<close>, is a string that is not empty.
\<close>

definition pushes :: "group object \<Rightarrow> string object \<Rightarrow> string \<Rightarrow> bool" where
  "pushes fileGroups proto baseName =
     (let v = lookupGroup fileGroups proto baseName
      in truthyName (readField TextFile v proto) \<noteq> None
         \<or> truthyName (readField ImageFile v proto) \<noteq> None)"

section \<open>Lemmas\<close>

subsection \<open>Objects and handlers of main.js\<close>

lemma map_of_setProp:
  "map_of (setProp k v ps) k' = (if k' = k then Some v else map_of ps k')"
  by (induction ps) auto

lemma announcementsLoop_readable:
  assumes "\<forall>f\<in>set files. toLowerCase (extname f) = ''.txt'' \<longrightarrow> readText d f = Some (contents f)"
  shows "announcementsLoop d files acc =
     Return (acc @ map (\<lambda>f. \<lparr>content = trim (contents f)\<rparr>)
        (filter (\<lambda>f. toLowerCase (extname f) = ''.txt'' \<and> 1 \<le> length (trim (contents f))
                     \<and> length (trim (contents f)) \<le> 100) files))"
  using assms
proof (induction files arbitrary: acc)
  case Nil
  then show ?case by simp
next
  case (Cons f files)
  then show ?case by (auto simp: Let_def Suc_le_eq)
qed

lemma announcementsLoop_unreadable:
  assumes "\<exists>f\<in>set files. toLowerCase (extname f) = ''.txt'' \<and> readText d f = None"
  shows "\<exists>f. announcementsLoop d files acc = Throw (ReadFileError f)"
  using assms
proof (induction files arbitrary: acc)
  case Nil
  then show ?case by simp
next
  case (Cons f files)
  show ?case
  proof (cases "toLowerCase (extname f) = ''.txt''")
    case True
    show ?thesis
    proof (cases "readText d f")
      case None
      with True show ?thesis by simp
    next
      case (Some t)
      with Cons.prems have "\<exists>g\<in>set files. toLowerCase (extname g) = ''.txt'' \<and> readText d g = None"
        by auto
      from Cons.IH[OF this] True Some show ?thesis by (simp add: Let_def)
    qed
  next
    case False
    with Cons.prems have "\<exists>g\<in>set files. toLowerCase (extname g) = ''.txt'' \<and> readText d g = None"
      by auto
    from Cons.IH[OF this] False show ?thesis by simp
  qed
qed

lemma groupStep_returns: "\<exists>st'. groupStep f st = Return st'"
proof -
  obtain fg proto where st: "st = (fg, proto)" by (cases st)
  show ?thesis
    unfolding st groupStep_def assignFile_def lookupGroup_def Let_def
    by (auto simp: map_of_setProp split: option.splits)
qed

lemma groupFiles_returns: "\<exists>st'. groupFiles fs st = Return st'"
proof (induction fs arbitrary: st)
  case Nil
  show ?case by simp
next
  case (Cons f fs)
  obtain st1 where "groupStep f st = Return st1" using groupStep_returns by blast
  with Cons show ?case by simp
qed

lemma emitArticle_types:
  assumes "emitArticle d k txt img imageData acc = Return acc'" "list_all (\<lambda>a. type a = ''article'') acc"
  shows "list_all (\<lambda>a. type a = ''article'') acc'"
  using assms by (auto simp: emitArticle_def split: option.splits)

lemma emitLoop_types:
  assumes "emitLoop lib d fg proto ks acc = Return out" "list_all (\<lambda>a. type a = ''article'') acc"
  shows "list_all (\<lambda>a. type a = ''article'') out"
  using assms
proof (induction ks arbitrary: acc)
  case Nil
  then show ?case by simp
next
  case (Cons k ks)
  from Cons.prems(1) obtain imageData acc1 where
    a: "emitArticle d k (readField TextFile (lookupGroup fg proto k) proto)
          (readField ImageFile (lookupGroup fg proto k) proto) imageData acc = Return acc1"
    and b: "emitLoop lib d fg proto ks acc1 = Return out"
    by (auto simp: Let_def split: completion.splits)
  from emitArticle_types[OF a Cons.prems(2)] Cons.IH[OF b] show ?case by simp
qed

lemma loadImage_error:
  "loadImage lib d img = Throw e \<Longrightarrow> \<exists>f. e = ReadFileError f"
  by (auto simp: loadImage_def Let_def split: option.splits)

lemma emitArticle_error:
  "emitArticle d k txt img imageData acc = Throw e \<Longrightarrow> \<exists>f. e = ReadFileError f"
  by (auto simp: emitArticle_def split: option.splits)

lemma loadImage_unreadable:
  "truthyName img = Some i \<Longrightarrow> readBytes d i = None
     \<Longrightarrow> \<exists>f. loadImage lib d img = Throw (ReadFileError f)"
  by (simp add: loadImage_def)

lemma emitArticle_unreadable:
  "truthyName txt = Some t \<Longrightarrow> readText d t = None
     \<Longrightarrow> \<exists>f. emitArticle d k txt img imageData acc = Throw (ReadFileError f)"
  by (auto simp: emitArticle_def split: option.splits)

lemma emitLoop_step_unreadable:
  assumes "\<not> readable d fg proto k"
  shows "\<exists>f. emitLoop lib d fg proto (k # ks) acc = Throw (ReadFileError f)"
proof -
  let ?v = "lookupGroup fg proto k"
  let ?txt = "readField TextFile ?v proto"
  let ?img = "readField ImageFile ?v proto"
  from assms consider
    (image) i where "truthyName ?img = Some i" "readBytes d i = None"
    | (plain) t where "truthyName ?txt = Some t" "readText d t = None"
    by (auto simp: readable_def Let_def split: option.splits)
  then show ?thesis
  proof cases
    case image
    from loadImage_unreadable[OF this, of lib] show ?thesis by (auto simp: Let_def)
  next
    case plain
    show ?thesis
    proof (cases "loadImage lib d ?img")
      case (Throw e)
      with loadImage_error[OF this] show ?thesis by (auto simp: Let_def)
    next
      case (Return imageData)
      from emitArticle_unreadable[OF plain, of k ?img imageData acc] Return
      show ?thesis by (auto simp: Let_def)
    qed
  qed
qed

lemma emitLoop_unreadable:
  assumes "\<exists>k\<in>set ks. \<not> readable d fg proto k"
  shows "\<exists>f. emitLoop lib d fg proto ks acc = Throw (ReadFileError f)"
  using assms
proof (induction ks arbitrary: acc)
  case Nil
  then show ?case by simp
next
  case (Cons k ks)
  show ?case
  proof (cases "readable d fg proto k")
    case False
    then show ?thesis by (rule emitLoop_step_unreadable)
  next
    case True
    with Cons.prems have rest: "\<exists>k\<in>set ks. \<not> readable d fg proto k" by auto
    let ?v = "lookupGroup fg proto k"
    show ?thesis
    proof (cases "loadImage lib d (readField ImageFile ?v proto)")
      case (Throw e)
      with loadImage_error[OF this] show ?thesis by (auto simp: Let_def)
    next
      case (Return imageData)
      show ?thesis
      proof (cases "emitArticle d k (readField TextFile ?v proto) (readField ImageFile ?v proto) imageData acc")
        case t: (Throw e)
        with emitArticle_error[OF this] Return show ?thesis by (auto simp: Let_def)
      next
        case r: (Return acc1)
        from Cons.IH[OF rest, of acc1] Return r show ?thesis by (auto simp: Let_def)
      qed
    qed
  qed
qed

subsection \<open>Dates, grouping and the daily summary\<close>

lemma keys_setProp:
  "map fst (setProp k v ps) = (if k \<in> set (map fst ps) then map fst ps else map fst ps @ [k])"
  by (induction ps) auto

lemma keyset_setProp: "fst ` set (setProp k v ps) = insert k (fst ` set ps)"
  by (induction ps) auto

lemma set_firstSeen [simp]: "set (firstSeen xs) = set xs"
  by (simp add: firstSeen_def)

lemma distinct_firstSeen [simp]: "distinct (firstSeen xs)"
  by (simp add: firstSeen_def)

lemma firstSeen_snoc:
  "firstSeen (xs @ [x]) = (if x \<in> set xs then firstSeen xs else firstSeen xs @ [x])"
  by (simp add: firstSeen_def)

lemma firstSeen_Nil [simp]: "firstSeen [] = []"
  by (simp add: firstSeen_def)

lemma toISODate_valid: "(toISODate ms \<noteq> None) = validTime ms"
  by (auto simp: toISODate_def validTime_def split: prod.splits)

lemma dash_in_date: "toISODate ms = Some s \<Longrightarrow> CHR ''-'' \<in> set s"
  by (auto simp: toISODate_def split: if_splits prod.splits)

lemma no_dash_in_prototypeKeys: "k \<in> set prototypeKeys \<Longrightarrow> CHR ''-'' \<notin> set k"
  by (auto simp: prototypeKeys_def prototypeMethods_def)

lemma date_not_prototypeKey: "toISODate ms = Some s \<Longrightarrow> s \<notin> set prototypeKeys"
  using dash_in_date no_dash_in_prototypeKeys by blast

lemma set_enumerationOrder [simp]: "set (enumerationOrder ks) = set ks"
  by (auto simp: enumerationOrder_def)

lemma distinct_enumerationOrder [simp]: "distinct ks \<Longrightarrow> distinct (enumerationOrder ks)"
  by (auto simp: enumerationOrder_def)

lemma number_le_Infinity [simp]: "(x :: number) \<le> Infinity"
  by (cases x) auto


lemma groupLoop_spec:
  assumes "groupLoop items g = Return g'" and "distinct (map fst g)"
  shows "distinct (map fst g')
       \<and> set (map fst g') = set (map fst g) \<union> {k. \<exists>i\<in>set items. dateString i = Some k}
       \<and> (\<forall>k\<in>set (map fst g'). map_of g' k =
             Some ((case map_of g k of Some b \<Rightarrow> b | None \<Rightarrow> []) @ dayBucket items k))"
  using assms
proof (induction items arbitrary: g)
  case Nil
  then show ?case by (auto simp: dayBucket_def map_of_eq_None_iff split: option.splits)
next
  case (Cons item items)
  from Cons.prems(1) obtain ds where ds: "dateString item = Some ds"
    by (auto split: option.splits)
  define g1 where "g1 = (case map_of g ds of Some b \<Rightarrow> setProp ds (b @ [item]) g
                          | None \<Rightarrow> setProp ds [item] g)"
  from Cons.prems(1) ds have run: "groupLoop items g1 = Return g'"
    by (auto simp: g1_def split: option.splits if_splits)
  have keys1: "set (map fst g1) = insert ds (set (map fst g))"
    by (auto simp: g1_def keyset_setProp split: option.splits)
  have dist1: "distinct (map fst g1)"
    using Cons.prems(2) by (auto simp: g1_def keys_setProp split: option.splits)
  have look1: "map_of g1 k = (if k = ds then Some ((case map_of g ds of Some b \<Rightarrow> b | None \<Rightarrow> []) @ [item])
                              else map_of g k)" for k
    by (auto simp: g1_def map_of_setProp split: option.splits)
  note IH = Cons.IH[OF run dist1]
  have d: "distinct (map fst g')"
    by (rule conjunct1[OF IH])
  have s: "set (map fst g') = set (map fst g1) \<union> {k. \<exists>i\<in>set items. dateString i = Some k}"
    by (rule conjunct1[OF conjunct2[OF IH]])
  have m: "\<forall>k\<in>set (map fst g'). map_of g' k =
             Some ((case map_of g1 k of Some b \<Rightarrow> b | None \<Rightarrow> []) @ dayBucket items k)"
    by (rule conjunct2[OF conjunct2[OF IH]])
  have s': "set (map fst g') = set (map fst g) \<union> {k. \<exists>i\<in>set (item # items). dateString i = Some k}"
    using s keys1 ds by auto
  have m': "\<forall>k\<in>set (map fst g'). map_of g' k =
             Some ((case map_of g k of Some b \<Rightarrow> b | None \<Rightarrow> []) @ dayBucket (item # items) k)"
  proof
    fix k assume "k \<in> set (map fst g')"
    with m have "map_of g' k = Some ((case map_of g1 k of Some b \<Rightarrow> b | None \<Rightarrow> []) @ dayBucket items k)"
      by blast
    then show "map_of g' k =
             Some ((case map_of g k of Some b \<Rightarrow> b | None \<Rightarrow> []) @ dayBucket (item # items) k)"
      using ds by (auto simp: look1 dayBucket_def)
  qed
  from d s' m' show ?case by blast
qed

lemma groupLoop_returns:
  assumes "\<forall>i\<in>set items. dateString i \<noteq> None"
  shows "\<exists>g'. groupLoop items g = Return g'"
  using assms
proof (induction items arbitrary: g)
  case Nil
  show ?case by simp
next
  case (Cons item items)
  then obtain ds where ds: "dateString item = Some ds" by auto
  then have "ds \<notin> set prototypeKeys" by (auto simp: dateString_def dest: date_not_prototypeKey)
  with Cons ds show ?case by (auto split: option.splits)
qed

lemma groupLoop_Return_dates:
  assumes "groupLoop items g = Return g'"
  shows "\<forall>i\<in>set items. dateString i \<noteq> None"
  using assms
  by (induction items arbitrary: g) (auto split: option.splits if_splits)

lemma dailyData_spec:
  assumes "\<forall>d\<in>set ds. map_of g d = Some (b d)"
  shows "dailyData g ds = Return (map (\<lambda>d. dayRecord d (b d)) ds)"
  using assms by (induction ds) auto

lemma sort_filter_keys:
  assumes "distinct ks"
  shows "sort (filter P (enumerationOrder ks)) = sorted_list_of_set {k \<in> set ks. P k}"
proof -
  have "sorted_list_of_set (set (sort (filter P (enumerationOrder ks)))) = sort (filter P (enumerationOrder ks))"
    by (rule sorted_list_of_set.idem_if_sorted_distinct)
       (use assms in auto)
  moreover have "set (sort (filter P (enumerationOrder ks))) = {k \<in> set ks. P k}" by auto
  ultimately show ?thesis by simp
qed

lemma processForecastData_spec:
  assumes "\<forall>i\<in>set items. dateString i \<noteq> None" and "toISODate now = Some today"
  shows "processForecastData now items =
           Return (map (\<lambda>d. dayRecord d (dayBucket items d))
             (take 4 (sorted_list_of_set {d. today \<le> d \<and> (\<exists>i\<in>set items. dateString i = Some d)})))"
proof -
  obtain g where g: "groupLoop items [] = Return g"
    using groupLoop_returns[OF assms(1)] by blast
  have "distinct (map fst ([] :: sample list object))" by simp
  note spec = groupLoop_spec[OF g this]
  have dist: "distinct (map fst g)" by (rule conjunct1[OF spec])
  have keys: "set (map fst g) = {k. \<exists>i\<in>set items. dateString i = Some k}"
    using conjunct1[OF conjunct2[OF spec]] by simp
  have look: "\<forall>k\<in>set (map fst g). map_of g k = Some (dayBucket items k)"
    using conjunct2[OF conjunct2[OF spec]] by simp
  define dates where "dates = sort (filter (\<lambda>d. d \<ge> today) (ownKeys g))"
  have dates: "dates = sorted_list_of_set {d. today \<le> d \<and> (\<exists>i\<in>set items. dateString i = Some d)}"
  proof -
    have "dates = sorted_list_of_set {k \<in> set (map fst g). today \<le> k}"
      unfolding dates_def ownKeys_def by (rule sort_filter_keys[OF dist])
    also have "{k \<in> set (map fst g). today \<le> k} = {d. today \<le> d \<and> (\<exists>i\<in>set items. dateString i = Some d)}"
      using keys by auto
    finally show ?thesis .
  qed
  have sub: "set (take 4 dates) \<subseteq> set (map fst g)"
  proof -
    have "set dates \<subseteq> set (map fst g)" by (auto simp: dates_def ownKeys_def)
    with set_take_subset[of 4 dates] show ?thesis by blast
  qed
  have "dailyData g (take 4 dates) = Return (map (\<lambda>d. dayRecord d (dayBucket items d)) (take 4 dates))"
    by (rule dailyData_spec) (use sub look in blast)
  then show ?thesis
    unfolding processForecastData_def using g assms(2) dates by (simp add: dates_def Let_def)
qed

lemma processForecastData_Return:
  assumes "processForecastData now items = Return out"
  shows "(\<forall>i\<in>set items. dateString i \<noteq> None) \<and> toISODate now \<noteq> None"
  using assms groupLoop_Return_dates
  by (auto simp: processForecastData_def split: completion.splits option.splits)

lemma finite_dates: "finite {d. P d \<and> (\<exists>i\<in>set items. dateString i = Some d)}"
proof -
  have "{d. P d \<and> (\<exists>i\<in>set items. dateString i = Some d)} \<subseteq> (\<lambda>i. the (dateString i)) ` set items"
    by force
  then show ?thesis by (rule finite_subset) simp
qed

lemma processForecastData_records:
  assumes "processForecastData now items = Return out" and "r \<in> set out"
  shows "dayBucket items (date r) \<noteq> [] \<and> r = dayRecord (date r) (dayBucket items (date r))"
proof -
  from processForecastData_Return[OF assms(1)] obtain today where
    v: "\<forall>i\<in>set items. dateString i \<noteq> None" and t: "toISODate now = Some today" by auto
  let ?S = "{d. today \<le> d \<and> (\<exists>i\<in>set items. dateString i = Some d)}"
  from processForecastData_spec[OF v t] assms(1)
  have out: "out = map (\<lambda>d. dayRecord d (dayBucket items d)) (take 4 (sorted_list_of_set ?S))" by simp
  with assms(2) obtain d where d: "d \<in> set (take 4 (sorted_list_of_set ?S))"
    and r: "r = dayRecord d (dayBucket items d)" by auto
  from d have "d \<in> set (sorted_list_of_set ?S)" by (rule in_set_takeD)
  then have "d \<in> ?S" using finite_dates[of "\<lambda>d. today \<le> d" items] by simp
  then have ne: "dayBucket items d \<noteq> []" by (auto simp: dayBucket_def filter_empty_conv)
  have "date r = d" using r by (simp add: dayRecord_def Let_def)
  with r ne show ?thesis by simp
qed


lemma dayStep_minTemp: "minTemp (dayStep item st) = min (temp item) (minTemp st)"
  by (auto simp: dayStep_def min_def)

lemma dayStep_maxTemp: "maxTemp (dayStep item st) = max (temp item) (maxTemp st)"
  by (auto simp: dayStep_def max_def)

lemma dayStep_conditionCounts:
  "conditionCounts (dayStep item st) = countCondition (main item) (conditionCounts st)"
  by (simp add: dayStep_def)

lemma dayLoop_minTemp: "minTemp (dayLoop b st) = fold min (map temp b) (minTemp st)"
  by (induction b arbitrary: st) (auto simp: dayStep_minTemp)

lemma dayLoop_maxTemp: "maxTemp (dayLoop b st) = fold max (map temp b) (maxTemp st)"
  by (induction b arbitrary: st) (auto simp: dayStep_maxTemp)

lemma dayLoop_conditionCounts:
  "conditionCounts (dayLoop b st) = fold countCondition (map main b) (conditionCounts st)"
  by (induction b arbitrary: st) (auto simp: dayStep_conditionCounts)

lemma min_Infinity: "min x Infinity = (x :: number)"
  by (simp add: min_def)

lemma max_NegInfinity: "max x NegInfinity = (x :: number)"
  by (cases x) (auto simp: max_def)

lemma dayRecord_temps:
  assumes "b \<noteq> []"
  shows "temp_min (dayRecord d b) = Min (temp ` set b) \<and> temp_max (dayRecord d b) = Max (temp ` set b)"
proof -
  from assms obtain i b' where b: "b = i # b'" by (cases b) auto
  have "temp_min (dayRecord d b) = fold min (map temp b') (temp i)"
    by (simp add: dayRecord_def Let_def dayLoop_minTemp b dayStep_minTemp min_Infinity)
  also have "\<dots> = Min (set (temp i # map temp b'))" by (simp only: Min.set_eq_fold)
  finally have 1: "temp_min (dayRecord d b) = Min (temp ` set b)" by (simp add: b)
  have "temp_max (dayRecord d b) = fold max (map temp b') (temp i)"
    by (simp add: dayRecord_def Let_def dayLoop_maxTemp b dayStep_maxTemp max_NegInfinity)
  also have "\<dots> = Max (set (temp i # map temp b'))" by (simp only: Max.set_eq_fold)
  finally have 2: "temp_max (dayRecord d b) = Max (temp ` set b)" by (simp add: b)
  from 1 2 show ?thesis by simp
qed

lemma setProp_absent: "k \<notin> fst ` set ps \<Longrightarrow> setProp k v ps = ps @ [(k, v)]"
  by (induction ps) auto

lemma setProp_map:
  "distinct ks \<Longrightarrow> k \<in> set ks \<Longrightarrow>
     setProp k v (map (\<lambda>l. (l, f l)) ks) = map (\<lambda>l. (l, if l = k then v else f l)) ks"
proof (induction ks)
  case Nil
  then show ?case by simp
next
  case (Cons a ks)
  show ?case
  proof (cases "a = k")
    case True
    with Cons.prems have "k \<notin> set ks" by simp
    then have "map (\<lambda>l. (l, f l)) ks = map (\<lambda>l. (l, if l = k then v else f l)) ks" by auto
    with True show ?thesis by simp
  next
    case False
    with Cons show ?thesis by simp
  qed
qed

lemma map_of_tally:
  "map_of (tally ls) l = (if l \<in> set ls then Some (Count (count_list ls l)) else None)"
proof -
  have "map_of (map (\<lambda>l. (l, Count (count_list ls l))) ks) l
          = (if l \<in> set ks then Some (Count (count_list ls l)) else None)" for ks
    by (induction ks) auto
  then show ?thesis by (simp add: tally_def)
qed

lemma count_list_pos: "l \<in> set ls \<Longrightarrow> 0 < count_list ls l"
  by (induction ls) auto

lemma countCondition_tally:
  assumes "x \<notin> set prototypeKeys"
  shows "countCondition x (tally xs) = tally (xs @ [x])"
proof (cases "x \<in> set xs")
  case True
  then have pos: "count_list xs x \<noteq> 0" using count_list_pos[of x xs] by simp
  have "countCondition x (tally xs) = setProp x (Count (count_list xs x + 1)) (tally xs)"
    using True pos by (simp add: countCondition_def map_of_tally)
  also have "\<dots> = map (\<lambda>l. (l, if l = x then Count (count_list xs x + 1) else Count (count_list xs l)))
                      (firstSeen xs)"
    unfolding tally_def using True by (intro setProp_map) auto
  also have "\<dots> = tally (xs @ [x])"
    using True by (auto simp: tally_def firstSeen_snoc)
  finally show ?thesis .
next
  case False
  from assms have np: "x \<noteq> ''__proto__''" "x \<notin> set prototypeMethods"
    by (auto simp: prototypeKeys_def)
  have "countCondition x (tally xs) = setProp x (Count 1) (tally xs)"
    using False np by (simp add: countCondition_def map_of_tally)
  also have "\<dots> = tally xs @ [(x, Count 1)]"
    by (rule setProp_absent) (use False in \<open>auto simp: tally_def\<close>)
  also have "\<dots> = tally (xs @ [x])"
    using False by (auto simp: tally_def firstSeen_snoc)
  finally show ?thesis .
qed

lemma fold_countCondition:
  assumes "set ls \<inter> set prototypeKeys = {}"
  shows "fold countCondition ls [] = tally ls"
  using assms
proof (induction ls rule: rev_induct)
  case Nil
  show ?case by (simp add: tally_def)
next
  case (snoc x xs)
  then have "fold countCondition xs [] = tally xs" and "x \<notin> set prototypeKeys" by auto
  then show ?case by (simp add: countCondition_tally)
qed

lemma exists_maximal:
  fixes c :: "'a \<Rightarrow> nat"
  assumes "ks \<noteq> []"
  shows "\<exists>j\<in>set ks. \<forall>k\<in>set ks. c k \<le> c j"
proof -
  have "finite (c ` set ks)" "c ` set ks \<noteq> {}" using assms by auto
  then have "Max (c ` set ks) \<in> c ` set ks" by (rule Max_in)
  then obtain j where "j \<in> set ks" "c j = Max (c ` set ks)" by auto
  moreover have "\<forall>k\<in>set ks. c k \<le> Max (c ` set ks)" by simp
  ultimately show ?thesis by metis
qed

lemma mostCommonLoop_step:
  "mostCommonLoop cc (k # ks) (b, m) =
     (if countOf cc k > m then mostCommonLoop cc ks (Some k, countOf cc k)
      else mostCommonLoop cc ks (b, m))"
  by (auto simp: countOf_def split: option.splits count.splits)

lemma mostCommonLoop_find:
  "fst (mostCommonLoop cc ks (b, m)) =
     (case List.find (\<lambda>k. m < countOf cc k \<and> (\<forall>k'\<in>set ks. countOf cc k' \<le> countOf cc k)) ks of
        Some k \<Rightarrow> Some k | None \<Rightarrow> b)"
proof (induction ks arbitrary: b m)
  case Nil
  show ?case by simp
next
  case (Cons k ks)
  let ?c = "countOf cc"
  show ?case
  proof (cases "?c k > m")
    case True
    note IH = Cons.IH[of "Some k" "?c k"]
    show ?thesis
    proof (cases "\<forall>k'\<in>set ks. ?c k' \<le> ?c k")
      case all: True
      then have "List.find (\<lambda>j. ?c k < ?c j \<and> (\<forall>k'\<in>set ks. ?c k' \<le> ?c j)) ks = None"
        by (auto simp: find_None_iff)
      with IH True all show ?thesis by (simp del: mostCommonLoop.simps add: mostCommonLoop_step)
    next
      case False
      then obtain k1 where k1: "k1 \<in> set ks" "?c k < ?c k1" by auto
      then have ne: "ks \<noteq> []" by auto
      from exists_maximal[OF ne, of ?c] obtain j where j: "j \<in> set ks" "\<forall>k'\<in>set ks. ?c k' \<le> ?c j"
        by blast
      have eq: "List.find (\<lambda>j. m < ?c j \<and> (\<forall>k'\<in>set (k # ks). ?c k' \<le> ?c j)) ks
              = List.find (\<lambda>j. ?c k < ?c j \<and> (\<forall>k'\<in>set ks. ?c k' \<le> ?c j)) ks"
      proof (rule find_cong[OF refl])
        fix x assume "x \<in> set ks"
        show "(m < ?c x \<and> (\<forall>k'\<in>set (k # ks). ?c k' \<le> ?c x))
              = (?c k < ?c x \<and> (\<forall>k'\<in>set ks. ?c k' \<le> ?c x))"
          using True k1 by (auto simp: order.strict_trans2 dest: bspec[where x = k1])
      qed
      have "?c k1 \<le> ?c j" using j k1 by blast
      with k1 have "?c k < ?c j" by simp
      with j have "\<exists>x. x \<in> set ks \<and> ?c k < ?c x \<and> (\<forall>k'\<in>set ks. ?c k' \<le> ?c x)" by blast
      then have some: "List.find (\<lambda>j. ?c k < ?c j \<and> (\<forall>k'\<in>set ks. ?c k' \<le> ?c j)) ks \<noteq> None"
        unfolding find_None_iff by blast
      from False have nk: "\<not> (m < ?c k \<and> (\<forall>k'\<in>set (k # ks). ?c k' \<le> ?c k))" by auto
      show ?thesis
        using IH True some nk eq by (auto simp del: mostCommonLoop.simps simp add: mostCommonLoop_step split: option.splits)
    qed
  next
    case False
    note IH = Cons.IH[of b m]
    have eq: "List.find (\<lambda>j. m < ?c j \<and> (\<forall>k'\<in>set (k # ks). ?c k' \<le> ?c j)) ks
            = List.find (\<lambda>j. m < ?c j \<and> (\<forall>k'\<in>set ks. ?c k' \<le> ?c j)) ks"
      by (rule find_cong[OF refl]) (use False in auto)
    from False IH eq show ?thesis by (simp del: mostCommonLoop.simps add: mostCommonLoop_step)
  qed
qed

lemma countOf_tally: "countOf (tally ls) = count_list ls"
proof
  fix l show "countOf (tally ls) l = count_list ls l"
    by (auto simp: countOf_def map_of_tally count_list_0_iff)
qed

lemma ownKeys_tally: "ownKeys (tally ls) = enumerationOrder (firstSeen ls)"
  by (simp add: ownKeys_def tally_def comp_def)

lemma dayRecord_condition:
  assumes "set (map main b) \<inter> set prototypeKeys = {}"
  shows "condition (dayRecord d b) =
           List.find (\<lambda>l. \<forall>l'\<in>set (map main b). count_list (map main b) l' \<le> count_list (map main b) l)
             (enumerationOrder (firstSeen (map main b)))"
proof -
  let ?ls = "map main b"
  let ?ks = "enumerationOrder (firstSeen ?ls)"
  have cc: "conditionCounts (dayLoop b \<lparr>minTemp = Infinity, maxTemp = NegInfinity, conditionCounts = []\<rparr>)
              = tally ?ls"
    using fold_countCondition[OF assms] by (simp add: dayLoop_conditionCounts)
  have "condition (dayRecord d b) = fst (mostCommonLoop (tally ?ls) ?ks (None, 0))"
    by (simp add: dayRecord_def Let_def cc ownKeys_tally)
  also have "\<dots> = (case List.find (\<lambda>k. 0 < count_list ?ls k \<and> (\<forall>k'\<in>set ?ks. count_list ?ls k' \<le> count_list ?ls k)) ?ks
                       of Some k \<Rightarrow> Some k | None \<Rightarrow> None)"
    by (simp add: mostCommonLoop_find countOf_tally)
  also have "\<dots> = List.find (\<lambda>k. 0 < count_list ?ls k \<and> (\<forall>k'\<in>set ?ks. count_list ?ls k' \<le> count_list ?ls k)) ?ks"
    by (simp split: option.splits)
  also have "\<dots> = List.find (\<lambda>l. \<forall>l'\<in>set ?ls. count_list ?ls l' \<le> count_list ?ls l) ?ks"
    by (rule find_cong[OF refl]) (auto simp: count_list_pos)
  finally show ?thesis .
qed

lemma enumerationOrder_plain:
  "\<not> (\<exists>k\<in>set ks. isArrayIndex k) \<Longrightarrow> enumerationOrder ks = ks"
proof -
  assume a: "\<not> (\<exists>k\<in>set ks. isArrayIndex k)"
  then have "filter isArrayIndex ks = []" by (auto simp: filter_empty_conv)
  moreover from a have "filter (\<lambda>k. \<not> isArrayIndex k) ks = ks" by (auto simp: filter_id_conv)
  ultimately show ?thesis by (simp add: enumerationOrder_def)
qed

lemma countCondition_other:
  "l \<noteq> c \<Longrightarrow> map_of (countCondition c cc) l = map_of cc l"
  by (auto simp: countCondition_def map_of_setProp split: option.splits count.splits)

lemma countCondition_counted:
  assumes "l \<notin> set prototypeKeys"
  shows "\<exists>n. map_of (countCondition l cc) l = Some (Count n) \<and> 0 < n"
  using assms
  by (auto simp: countCondition_def map_of_setProp prototypeKeys_def split: option.splits count.splits)

lemma fold_countCondition_counted:
  assumes "l \<notin> set prototypeKeys" and "l \<in> set ls"
  shows "\<exists>n. map_of (fold countCondition ls cc) l = Some (Count n) \<and> 0 < n"
  using assms(2)
proof (induction ls rule: rev_induct)
  case Nil
  then show ?case by simp
next
  case (snoc x xs)
  show ?case
  proof (cases "x = l")
    case True
    with countCondition_counted[OF assms(1), of "fold countCondition xs cc"] show ?thesis by simp
  next
    case False
    with snoc have "\<exists>n. map_of (fold countCondition xs cc) l = Some (Count n) \<and> 0 < n" by auto
    with False show ?thesis by (simp add: countCondition_other)
  qed
qed

lemma mostCommonLoop_some:
  assumes "k \<in> set ks" and "0 < countOf cc k"
  shows "\<exists>l. fst (mostCommonLoop cc ks (None, 0)) = Some l"
proof -
  let ?c = "countOf cc"
  from assms(1) have "ks \<noteq> []" by auto
  from exists_maximal[OF this, of ?c] obtain j where j: "j \<in> set ks" "\<forall>k'\<in>set ks. ?c k' \<le> ?c j"
    by blast
  with assms have "0 < ?c j" by (metis le_zero_eq not_gr_zero)
  with j have "\<exists>x. x \<in> set ks \<and> 0 < ?c x \<and> (\<forall>k'\<in>set ks. ?c k' \<le> ?c x)" by blast
  then have "List.find (\<lambda>k. 0 < ?c k \<and> (\<forall>k'\<in>set ks. ?c k' \<le> ?c k)) ks \<noteq> None"
    unfolding find_None_iff by blast
  then show ?thesis by (auto simp: mostCommonLoop_find)
qed

lemma dayRecord_condition_some:
  assumes "l \<in> set (map main b)" and "l \<notin> set prototypeKeys"
  shows "\<exists>c. condition (dayRecord d b) = Some c"
proof -
  let ?cc = "fold countCondition (map main b) []"
  from fold_countCondition_counted[OF assms(2,1), of "[]"] obtain n where
    n: "map_of ?cc l = Some (Count n)" "0 < n" by blast
  then have pos: "0 < countOf ?cc l" by (simp add: countOf_def)
  from n have "l \<in> set (map fst ?cc)" by (metis map_of_eq_None_iff option.distinct(1) set_map)
  then have key: "l \<in> set (ownKeys ?cc)" by (simp add: ownKeys_def)
  from mostCommonLoop_some[OF key pos] show ?thesis
    by (simp add: dayRecord_def Let_def dayLoop_conditionCounts)
qed

subsection \<open>The two loops of the news handler\<close>

lemma extname_suffix: "extname f = drop (length f - length (extname f)) f"
  by (auto simp: extname_def Let_def)

lemma fileKey_lower:
  assumes "extname f = toLowerCase (extname f)"
  shows "fileKey f = specStem f"
proof -
  have "drop (length f - length (extname f)) f = extname f" using extname_suffix[of f] by simp
  moreover have "extname f = [] \<Longrightarrow> take (length f - length (extname f)) f = f" by simp
  ultimately show ?thesis
    using assms by (auto simp: fileKey_def specStem_def basename_def)
qed

lemma isText_not_isImage: "isText f \<Longrightarrow> \<not> isImage f"
  by (simp add: isText_def isImage_def imageExtensions_def)

lemma recognized_nonempty: "isText f \<or> isImage f \<Longrightarrow> f \<noteq> []"
  by (auto simp: isText_def isImage_def imageExtensions_def extname_def toLowerCase_def)

lemma lookupGroup_plain:
  "k \<notin> set prototypeKeys \<Longrightarrow>
     lookupGroup fg [] k = (case map_of fg k of Some g \<Rightarrow> OwnGroup g | None \<Rightarrow> Undefined)"
  by (auto simp: lookupGroup_def prototypeKeys_def split: option.splits)

lemma setProp_same: "map_of ps k = Some v \<Longrightarrow> setProp k v ps = ps"
  by (induction ps) (auto split: if_splits)

lemma setProp_twice: "setProp k v (setProp k w ps) = setProp k v ps"
  by (induction ps) auto

lemma groupStep_alt:
  "groupStep f (fg, proto) =
     (let fg1 = (if \<not> truthy (lookupGroup fg proto (fileKey f))
                 then setProp (fileKey f) \<lparr>textFile = None, imageFile = None\<rparr> fg else fg)
      in if isText f then assignFile TextFile (fileKey f) f (fg1, proto)
         else if isImage f then assignFile ImageFile (fileKey f) f (fg1, proto)
         else Return (fg1, proto))"
  unfolding groupStep_def fileKey_def isText_def isImage_def Let_def by simp

lemma groupStep_plain:
  assumes "fileKey f \<notin> set prototypeKeys"
  shows "groupStep f (fg, []) =
     Return (setProp (fileKey f)
        (let g0 = (case map_of fg (fileKey f) of Some g \<Rightarrow> g
                   | None \<Rightarrow> \<lparr>textFile = None, imageFile = None\<rparr>)
         in if isText f then g0\<lparr>textFile := Some f\<rparr>
            else if isImage f then g0\<lparr>imageFile := Some f\<rparr> else g0) fg, [])"
proof (cases "map_of fg (fileKey f)")
  case None
  then show ?thesis
    using assms
    by (simp add: groupStep_alt Let_def lookupGroup_plain assignFile_def map_of_setProp
        setField_def setProp_twice)
next
  case (Some g)
  then show ?thesis
    using assms
    by (simp add: groupStep_alt Let_def lookupGroup_plain assignFile_def map_of_setProp
        setField_def setProp_same)
qed

lemma groupFiles_append:
  "groupFiles (fs @ [f]) st =
     (case groupFiles fs st of Throw e \<Rightarrow> Throw e | Return st1 \<Rightarrow> groupStep f st1)"
  by (induction fs arbitrary: st) (auto split: completion.splits)

lemma lastFile_snoc:
  "lastFile P k (fs @ [f]) = (if fileKey f = k \<and> P f then Some f else lastFile P k fs)"
  by (simp add: lastFile_def)

lemma lastFile_absent: "k \<notin> set (map fileKey fs) \<Longrightarrow> lastFile P k fs = None"
  by (auto simp: lastFile_def find_None_iff)

lemma map_of_groupsOf:
  "map_of (groupsOf fs) k = (if k \<in> set (map fileKey fs) then Some (groupOf fs k) else None)"
proof -
  have "map_of (map (\<lambda>k. (k, groupOf fs k)) ks) k = (if k \<in> set ks then Some (groupOf fs k) else None)"
    for ks by (induction ks) auto
  then show ?thesis by (simp add: groupsOf_def)
qed

lemma groupStep_groupsOf:
  assumes "fileKey f \<notin> set prototypeKeys"
  shows "groupStep f (groupsOf fs, []) = Return (groupsOf (fs @ [f]), [])"
proof -
  let ?k = "fileKey f"
  let ?g1 = "groupOf (fs @ [f]) ?k"
  have other: "k \<noteq> ?k \<Longrightarrow> groupOf (fs @ [f]) k = groupOf fs k" for k
    by (auto simp: groupOf_def lastFile_snoc)
  show ?thesis
  proof (cases "?k \<in> set (map fileKey fs)")
    case True
    have g1: "(let g0 = (case map_of (groupsOf fs) ?k of Some g \<Rightarrow> g
                   | None \<Rightarrow> \<lparr>textFile = None, imageFile = None\<rparr>)
         in if isText f then g0\<lparr>textFile := Some f\<rparr>
            else if isImage f then g0\<lparr>imageFile := Some f\<rparr> else g0) = ?g1"
      using True isText_not_isImage[of f]
      by (auto simp: map_of_groupsOf groupOf_def lastFile_snoc)
    have "setProp ?k ?g1 (groupsOf fs)
            = map (\<lambda>l. (l, if l = ?k then ?g1 else groupOf fs l)) (firstSeen (map fileKey fs))"
      unfolding groupsOf_def using True by (intro setProp_map) auto
    also have "\<dots> = groupsOf (fs @ [f])"
      using True other by (auto simp: groupsOf_def firstSeen_snoc)
    finally show ?thesis using groupStep_plain[OF assms, of "groupsOf fs"] g1 by simp
  next
    case False
    have g1: "(let g0 = (case map_of (groupsOf fs) ?k of Some g \<Rightarrow> g
                   | None \<Rightarrow> \<lparr>textFile = None, imageFile = None\<rparr>)
         in if isText f then g0\<lparr>textFile := Some f\<rparr>
            else if isImage f then g0\<lparr>imageFile := Some f\<rparr> else g0) = ?g1"
      using False isText_not_isImage[of f] lastFile_absent[OF False]
      by (auto simp: map_of_groupsOf groupOf_def lastFile_snoc)
    have "setProp ?k ?g1 (groupsOf fs) = groupsOf fs @ [(?k, ?g1)]"
      by (rule setProp_absent) (use False in \<open>auto simp: groupsOf_def\<close>)
    also have "\<dots> = groupsOf (fs @ [f])"
    proof -
      have "map (\<lambda>l. (l, groupOf fs l)) (firstSeen (map fileKey fs))
              = map (\<lambda>l. (l, groupOf (fs @ [f]) l)) (firstSeen (map fileKey fs))"
      proof (rule map_cong[OF refl])
        fix l assume "l \<in> set (firstSeen (map fileKey fs))"
        then have "l \<in> set (map fileKey fs)" by simp
        with False have "l \<noteq> ?k" by metis
        then show "(l, groupOf fs l) = (l, groupOf (fs @ [f]) l)" using other by simp
      qed
      with False show ?thesis by (simp add: groupsOf_def firstSeen_snoc)
    qed
    finally show ?thesis using groupStep_plain[OF assms, of "groupsOf fs"] g1 by simp
  qed
qed

lemma groupFiles_groupsOf:
  assumes "\<forall>f\<in>set files. fileKey f \<notin> set prototypeKeys"
  shows "groupFiles files ([], []) = Return (groupsOf files, [])"
  using assms
proof (induction files rule: rev_induct)
  case Nil
  show ?case by (simp add: groupsOf_def)
next
  case (snoc f fs)
  then have "groupFiles fs ([], []) = Return (groupsOf fs, [])" and "fileKey f \<notin> set prototypeKeys"
    by auto
  then show ?case by (simp add: groupFiles_append groupStep_groupsOf)
qed

lemma ownKeys_groupsOf: "ownKeys (groupsOf fs) = enumerationOrder (firstSeen (map fileKey fs))"
  by (simp add: ownKeys_def groupsOf_def comp_def)

lemma forInKeys_plain: "forInKeys fg [] = ownKeys fg"
  by (simp add: forInKeys_def ownKeys_def enumerationOrder_def)

lemma lookupGroup_own: "map_of fg k = Some g \<Longrightarrow> lookupGroup fg proto k = OwnGroup g"
  by (simp add: lookupGroup_def)

lemma readField_own:
  "readField TextFile (OwnGroup g) [] = textFile g" "readField ImageFile (OwnGroup g) [] = imageFile g"
  by (auto simp: readField_def split: option.splits)

lemma emitArticle_titles:
  "emitArticle d k txt img imageData acc = Return acc' \<Longrightarrow>
     map title acc' = map title acc
        @ (if truthyName txt \<noteq> None \<or> truthyName img \<noteq> None then [k] else [])"
  by (auto simp: emitArticle_def split: option.splits)

lemma emitLoop_pushes:
  assumes "emitLoop lib d fg proto ks acc = Return out"
  shows "map title out = map title acc @ filter (pushes fg proto) ks"
  using assms
proof (induction ks arbitrary: acc)
  case Nil
  then show ?case by simp
next
  case (Cons k ks)
  from Cons.prems(1) obtain imageData acc1 where
    a: "emitArticle d k (readField TextFile (lookupGroup fg proto k) proto)
          (readField ImageFile (lookupGroup fg proto k) proto) imageData acc = Return acc1"
    and b: "emitLoop lib d fg proto ks acc1 = Return out"
    by (auto simp: Let_def split: completion.splits)
  from Cons.IH[OF b] emitArticle_titles[OF a] show ?case by (simp add: pushes_def Let_def)
qed

lemma emitLoop_titles:
  assumes "emitLoop lib d (groupsOf fs) [] ks acc = Return out"
    and "set ks \<subseteq> set (map fileKey fs)"
  shows "map title out = map title acc @ filter (\<lambda>k. hasFile (groupOf fs k)) ks"
  using assms
proof (induction ks arbitrary: acc)
  case Nil
  then show ?case by simp
next
  case (Cons k ks)
  from Cons.prems(2) have look: "lookupGroup (groupsOf fs) [] k = OwnGroup (groupOf fs k)"
    by (intro lookupGroup_own) (simp add: map_of_groupsOf)
  from Cons.prems(1) obtain imageData acc1 where
    a: "emitArticle d k (textFile (groupOf fs k)) (imageFile (groupOf fs k)) imageData acc = Return acc1"
    and b: "emitLoop lib d (groupsOf fs) [] ks acc1 = Return out"
    by (auto simp: Let_def look readField_own split: completion.splits)
  from Cons.prems(2) have "set ks \<subseteq> set (map fileKey fs)" by simp
  from Cons.IH[OF b this] emitArticle_titles[OF a] show ?case by (simp add: hasFile_def)
qed

lemma lastFile_Some:
  "lastFile P k fs = Some f \<Longrightarrow> f \<in> set fs \<and> fileKey f = k \<and> P f"
proof -
  assume "lastFile P k fs = Some f"
  then obtain i where "i < length (rev fs)" "fileKey (rev fs ! i) = k \<and> P (rev fs ! i)" "f = rev fs ! i"
    unfolding lastFile_def find_Some_iff by blast
  moreover from this have "rev fs ! i \<in> set (rev fs)" by (intro nth_mem)
  ultimately show ?thesis by simp
qed

lemma lastFile_None: "(lastFile P k fs = None) = (\<not> (\<exists>f\<in>set fs. fileKey f = k \<and> P f))"
  by (auto simp: lastFile_def find_None_iff)

lemma truthyName_lastFile:
  assumes "\<And>f. P f \<Longrightarrow> recognized f"
  shows "truthyName (lastFile P k fs) = lastFile P k fs"
proof (cases "lastFile P k fs")
  case None
  then show ?thesis by (simp add: truthyName_def)
next
  case (Some f)
  from lastFile_Some[OF Some] have "P f" by auto
  then have "f \<noteq> []" using assms recognized_nonempty by (auto simp: recognized_def)
  with Some show ?thesis by (simp add: truthyName_def)
qed

lemma truthy_lastFile:
  assumes "\<And>f. P f \<Longrightarrow> recognized f"
  shows "(truthyName (lastFile P k fs) \<noteq> None) = (\<exists>f\<in>set fs. fileKey f = k \<and> P f)"
proof (cases "lastFile P k fs")
  case None
  then show ?thesis using lastFile_None[of P k fs] by (simp add: truthyName_def)
next
  case (Some f)
  from lastFile_Some[OF Some] have f: "f \<in> set fs" "fileKey f = k" "P f" by auto
  then have "f \<noteq> []" using assms recognized_nonempty by (auto simp: recognized_def)
  with Some f show ?thesis by (auto simp: truthyName_def)
qed

lemma hasFile_groupOf:
  "hasFile (groupOf fs k) = (\<exists>f\<in>set fs. fileKey f = k \<and> recognized f)"
proof -
  have t: "(truthyName (lastFile isText k fs) \<noteq> None) = (\<exists>f\<in>set fs. fileKey f = k \<and> isText f)"
    by (rule truthy_lastFile) (simp add: recognized_def)
  have i: "(truthyName (lastFile isImage k fs) \<noteq> None) = (\<exists>f\<in>set fs. fileKey f = k \<and> isImage f)"
    by (rule truthy_lastFile) (simp add: recognized_def)
  have "hasFile (groupOf fs k)
          = ((\<exists>f\<in>set fs. fileKey f = k \<and> isText f) \<or> (\<exists>f\<in>set fs. fileKey f = k \<and> isImage f))"
    by (simp only: hasFile_def groupOf_def group.simps t i)
  also have "\<dots> = (\<exists>f\<in>set fs. fileKey f = k \<and> recognized f)"
    by (auto simp: recognized_def)
  finally show ?thesis .
qed

lemma news_titles:
  assumes "entries d = Some files"
    and "\<forall>f\<in>set files. fileKey f \<notin> set prototypeKeys"
  shows "\<exists>articles logged. getNewsArticles lib d [] = (Return articles, logged, [])
     \<and> map title articles =
         (if logged = []
          then filter (\<lambda>s. \<exists>f\<in>set files. fileKey f = s \<and> recognized f)
                 (enumerationOrder (firstSeen (map fileKey files)))
          else [])"
proof -
  let ?ks = "enumerationOrder (firstSeen (map fileKey files))"
  have g: "groupFiles files ([], []) = Return (groupsOf files, [])"
    by (rule groupFiles_groupsOf[OF assms(2)])
  have run: "newsTry lib d [] = (emitLoop lib d (groupsOf files) [] ?ks [], [])"
    using assms(1) g by (simp add: newsTry_def forInKeys_plain ownKeys_groupsOf)
  show ?thesis
  proof (cases "emitLoop lib d (groupsOf files) [] ?ks []")
    case (Throw e)
    with run show ?thesis by (simp add: getNewsArticles_def)
  next
    case (Return out)
    have "set ?ks \<subseteq> set (map fileKey files)" by simp
    from emitLoop_titles[OF Return this]
    have "map title out = filter (\<lambda>s. \<exists>f\<in>set files. fileKey f = s \<and> recognized f) ?ks"
      by (simp add: hasFile_groupOf)
    with run Return show ?thesis by (simp add: getNewsArticles_def)
  qed
qed

lemma loadImage_ok:
  assumes "f \<noteq> []" "readBytes d f = Some bytes"
  shows "loadImage lib d (Some f) = Return (Some (dataURI lib f bytes))"
  using assms by (simp add: loadImage_def truthyName_def dataURI_def Let_def)

lemma loadImage_none: "loadImage lib d None = Return None"
  by (simp add: loadImage_def truthyName_def)

lemma emitStep_articleFor:
  assumes reads: "\<forall>f\<in>set fs. (isText f \<longrightarrow> readText d f = Some (texts f))
                      \<and> (isImage f \<longrightarrow> readBytes d f = Some (images f))"
  shows "(case loadImage lib d (lastFile isImage k fs) of
            Throw e \<Rightarrow> Throw e
          | Return imageData \<Rightarrow>
              emitArticle d k (lastFile isText k fs) (lastFile isImage k fs) imageData acc)
         = Return (acc @ articleFor lib texts images fs k)"
proof -
  have tx: "lastFile isText k fs = Some t \<Longrightarrow> t \<noteq> [] \<and> readText d t = Some (texts t)" for t
    using lastFile_Some[of isText k fs t] reads recognized_nonempty[of t] by auto
  have img: "lastFile isImage k fs = Some i \<Longrightarrow> i \<noteq> [] \<and> readBytes d i = Some (images i)" for i
    using lastFile_Some[of isImage k fs i] reads recognized_nonempty[of i] by auto
  show ?thesis
  proof (cases "lastFile isImage k fs")
    case None
    show ?thesis
    proof (cases "lastFile isText k fs")
      case n: None
      with None show ?thesis
        by (simp add: loadImage_none emitArticle_def truthyName_def articleFor_def)
    next
      case (Some t)
      with None tx[OF Some] show ?thesis
        by (simp add: loadImage_none emitArticle_def truthyName_def articleFor_def)
    qed
  next
    case (Some i)
    note i = img[OF Some]
    have l: "loadImage lib d (Some i) = Return (Some (dataURI lib i (images i)))"
      using i by (intro loadImage_ok) auto
    show ?thesis
    proof (cases "lastFile isText k fs")
      case None
      with Some i l show ?thesis
        by (simp add: emitArticle_def truthyName_def articleFor_def)
    next
      case t: (Some t)
      with Some i l tx[OF t] show ?thesis
        by (simp add: emitArticle_def truthyName_def articleFor_def)
    qed
  qed
qed

lemma emitLoop_articles:
  assumes "\<forall>f\<in>set fs. (isText f \<longrightarrow> readText d f = Some (texts f))
                      \<and> (isImage f \<longrightarrow> readBytes d f = Some (images f))"
    and "set ks \<subseteq> set (map fileKey fs)"
  shows "emitLoop lib d (groupsOf fs) [] ks acc
           = Return (acc @ concat (map (articleFor lib texts images fs) ks))"
  using assms(2)
proof (induction ks arbitrary: acc)
  case Nil
  show ?case by simp
next
  case (Cons k ks)
  from Cons.prems have look: "lookupGroup (groupsOf fs) [] k = OwnGroup (groupOf fs k)"
    by (intro lookupGroup_own) (simp add: map_of_groupsOf)
  from Cons.prems have sub: "set ks \<subseteq> set (map fileKey fs)" by simp
  have g: "textFile (groupOf fs k) = lastFile isText k fs" "imageFile (groupOf fs k) = lastFile isImage k fs"
    by (simp_all add: groupOf_def)
  note step = emitStep_articleFor[OF assms(1), where lib = lib and k = k and acc = acc]
  then obtain imageData where li: "loadImage lib d (lastFile isImage k fs) = Return imageData"
    and ea: "emitArticle d k (lastFile isText k fs) (lastFile isImage k fs) imageData acc
               = Return (acc @ articleFor lib texts images fs k)"
    by (auto split: completion.splits)
  have "emitLoop lib d (groupsOf fs) [] (k # ks) acc
          = emitLoop lib d (groupsOf fs) [] ks (acc @ articleFor lib texts images fs k)"
    by (simp add: Let_def look readField_own g li ea)
  with Cons.IH[OF sub] show ?case by simp
qed

lemma articleFor_title: "a \<in> set (articleFor lib texts images fs k) \<Longrightarrow> title a = k"
  by (auto simp: articleFor_def split: option.splits)

lemma articleFor_absent: "k \<notin> set (map fileKey fs) \<Longrightarrow> articleFor lib texts images fs k = []"
  by (simp add: articleFor_def lastFile_absent)

lemma filter_concat_titles:
  assumes "distinct ks" and "\<And>k a. a \<in> set (A k) \<Longrightarrow> title a = k"
  shows "filter (\<lambda>a. title a = s) (concat (map A ks)) = (if s \<in> set ks then A s else [])"
  using assms(1)
proof (induction ks)
  case Nil
  show ?case by simp
next
  case (Cons k ks)
  have same: "filter (\<lambda>a. title a = s) (A s) = A s"
    using assms(2) by (auto simp: filter_id_conv)
  have diff: "filter (\<lambda>a. title a = s) (A k) = []" if "k \<noteq> s"
    using assms(2) that by (auto simp: filter_empty_conv)
  from Cons.prems have IH: "filter (\<lambda>a. title a = s) (concat (map A ks)) = (if s \<in> set ks then A s else [])"
    and nk: "k \<notin> set ks" using Cons.IH by auto
  show ?case
  proof (cases "k = s")
    case True
    with nk IH same show ?thesis by simp
  next
    case False
    with IH diff[OF False] show ?thesis by simp
  qed
qed

section \<open>The claims\<close>

subsection \<open>Announcements and failed scans\<close>

text \<open>
  Claim C7. For a directory whose \<open>.txt\<close> entries can all be read, the announcements
  handler returns exactly the records \<open>{content: trimmed contents}\<close> of the entries whose
  extension is \<open>.txt\<close> in any letter case and whose trimmed content has between 1 and 100
  code units, in listing order, and logs nothing. (A failed read is the case of claim C4.)
\<close>

theorem announcements_in_range:
  assumes "entries d = Some files"
    and "\<forall>f\<in>set files. toLowerCase (extname f) = ''.txt'' \<longrightarrow> readText d f = Some (contents f)"
  shows "getAnnouncements d =
     (Return (map (\<lambda>f. \<lparr>content = trim (contents f)\<rparr>)
        (filter (\<lambda>f. toLowerCase (extname f) = ''.txt'' \<and> 1 \<le> length (trim (contents f))
                     \<and> length (trim (contents f)) \<le> 100) files)), [])"
  using announcementsLoop_readable[OF assms(2), of "[]"] assms(1)
  by (simp add: getAnnouncements_def announcementsTry_def)

text \<open>
  A listing with a short announcement, one of exactly 100 code units under an upper-case
  extension, an empty one, one of 101 code units and a file that is not text.
\<close>

theorem announcements_in_range_witness:
  "getAnnouncements
     \<lparr>entries = Some [''a.txt'', ''b.TXT'', ''c.md'', ''e.txt'', ''l.txt''],
      readText = (\<lambda>f. Some (if f = ''a.txt'' then ''  hello  ''
                            else if f = ''b.TXT'' then replicate 100 CHR ''x''
                            else if f = ''e.txt'' then ''   ''
                            else replicate 101 CHR ''y'')),
      readBytes = (\<lambda>f. None)\<rparr>
   = (Return [\<lparr>content = ''hello''\<rparr>, \<lparr>content = replicate 100 CHR ''x''\<rparr>], [])"
proof -
  let ?contents = "\<lambda>f. if f = ''a.txt'' then ''  hello  ''
                            else if f = ''b.TXT'' then replicate 100 CHR ''x''
                            else if f = ''e.txt'' then ''   ''
                            else replicate 101 CHR ''y''"
  let ?files = "[''a.txt'', ''b.TXT'', ''c.md'', ''e.txt'', ''l.txt'']"
  let ?d = "\<lparr>entries = Some ?files, readText = (\<lambda>f. Some (?contents f)), readBytes = (\<lambda>f. None)\<rparr>"
  have e: "entries ?d = Some ?files" by simp
  have r: "\<forall>f\<in>set ?files. toLowerCase (extname f) = ''.txt'' \<longrightarrow> readText ?d f = Some (?contents f)"
    by simp
  have v: "map (\<lambda>f. \<lparr>content = trim (?contents f)\<rparr>)
        (filter (\<lambda>f. toLowerCase (extname f) = ''.txt'' \<and> 1 \<le> length (trim (?contents f))
                     \<and> length (trim (?contents f)) \<le> 100) ?files)
      = [\<lparr>content = ''hello''\<rparr>, \<lparr>content = replicate 100 CHR ''x''\<rparr>]"
    by code_simp
  from announcements_in_range[OF e r] show ?thesis unfolding v .
qed

text \<open>
  Claim C4. When the directory cannot be listed, both handlers return the empty list and
  pass the error to \<open>console.error\<close>. The same happens when a read of the scan fails:
  for the announcements, when some \<open>.txt\<close> entry cannot be read; for the news, when a read
  that the second loop performs for one of its keys fails. In every case the caller sees
  a returned list, never an exception, and the list is empty whenever something was
  logged.
\<close>

theorem failed_scan_returns_empty:
  "(entries d = None \<longrightarrow>
      getAnnouncements d = (Return [], [ReaddirError])
      \<and> getNewsArticles lib d proto = (Return [], [ReaddirError], proto))
   \<and> (entries d = Some files
        \<and> (\<exists>f\<in>set files. toLowerCase (extname f) = ''.txt'' \<and> readText d f = None) \<longrightarrow>
      (\<exists>f. getAnnouncements d = (Return [], [ReadFileError f])))
   \<and> (entries d = Some files \<and> groupFiles files ([], proto) = Return (fileGroups, proto1)
        \<and> (\<exists>k\<in>set (forInKeys fileGroups proto1). \<not> readable d fileGroups proto1 k) \<longrightarrow>
      (\<exists>f. getNewsArticles lib d proto = (Return [], [ReadFileError f], proto1)))
   \<and> (\<exists>announcements logged. getAnnouncements d = (Return announcements, logged)
        \<and> (logged \<noteq> [] \<longrightarrow> announcements = []))
   \<and> (\<exists>articles logged proto2. getNewsArticles lib d proto = (Return articles, logged, proto2)
        \<and> (logged \<noteq> [] \<longrightarrow> articles = []))"
proof -
  have 1: "entries d = None \<longrightarrow>
      getAnnouncements d = (Return [], [ReaddirError])
      \<and> getNewsArticles lib d proto = (Return [], [ReaddirError], proto)"
    by (simp add: getAnnouncements_def announcementsTry_def getNewsArticles_def newsTry_def)
  have 2: "entries d = Some files
        \<and> (\<exists>f\<in>set files. toLowerCase (extname f) = ''.txt'' \<and> readText d f = None) \<longrightarrow>
      (\<exists>f. getAnnouncements d = (Return [], [ReadFileError f]))"
  proof
    assume a: "entries d = Some files
        \<and> (\<exists>f\<in>set files. toLowerCase (extname f) = ''.txt'' \<and> readText d f = None)"
    then obtain f where "announcementsLoop d files [] = Throw (ReadFileError f)"
      using announcementsLoop_unreadable[of files d "[]"] by blast
    with a show "\<exists>f. getAnnouncements d = (Return [], [ReadFileError f])"
      by (simp add: getAnnouncements_def announcementsTry_def)
  qed
  have 3: "entries d = Some files \<and> groupFiles files ([], proto) = Return (fileGroups, proto1)
        \<and> (\<exists>k\<in>set (forInKeys fileGroups proto1). \<not> readable d fileGroups proto1 k) \<longrightarrow>
      (\<exists>f. getNewsArticles lib d proto = (Return [], [ReadFileError f], proto1))"
  proof
    assume a: "entries d = Some files \<and> groupFiles files ([], proto) = Return (fileGroups, proto1)
        \<and> (\<exists>k\<in>set (forInKeys fileGroups proto1). \<not> readable d fileGroups proto1 k)"
    then obtain f where
      "emitLoop lib d fileGroups proto1 (forInKeys fileGroups proto1) [] = Throw (ReadFileError f)"
      using emitLoop_unreadable[of "forInKeys fileGroups proto1" d fileGroups proto1 lib "[]"] by blast
    with a show "\<exists>f. getNewsArticles lib d proto = (Return [], [ReadFileError f], proto1)"
      by (simp add: getNewsArticles_def newsTry_def)
  qed
  have 4: "\<exists>announcements logged. getAnnouncements d = (Return announcements, logged)
        \<and> (logged \<noteq> [] \<longrightarrow> announcements = [])"
    by (auto simp: getAnnouncements_def split: completion.splits)
  have 5: "\<exists>articles logged proto2. getNewsArticles lib d proto = (Return articles, logged, proto2)
        \<and> (logged \<noteq> [] \<longrightarrow> articles = [])"
    by (auto simp: getNewsArticles_def split: prod.splits completion.splits)
  from 1 2 3 4 5 show ?thesis by blast
qed

theorem failed_scan_returns_empty_witness:
  "getAnnouncements \<lparr>entries = None, readText = (\<lambda>f. None), readBytes = (\<lambda>f. None)\<rparr>
     = (Return [], [ReaddirError])
   \<and> getNewsArticles \<lparr>mimeLookup = (\<lambda>f. None), base64 = (\<lambda>b. [])\<rparr>
       \<lparr>entries = None, readText = (\<lambda>f. None), readBytes = (\<lambda>f. None)\<rparr> []
     = (Return [], [ReaddirError], [])
   \<and> (\<exists>f. getAnnouncements
            \<lparr>entries = Some [''a.txt'', ''b.png''], readText = (\<lambda>f. None), readBytes = (\<lambda>f. None)\<rparr>
          = (Return [], [ReadFileError f]))
   \<and> (\<exists>f. getNewsArticles \<lparr>mimeLookup = (\<lambda>f. None), base64 = (\<lambda>b. [])\<rparr>
            \<lparr>entries = Some [''a.txt'', ''b.png''], readText = (\<lambda>f. None), readBytes = (\<lambda>f. None)\<rparr> []
          = (Return [], [ReadFileError f], []))"
proof -
  let ?lib = "\<lparr>mimeLookup = (\<lambda>f. None), base64 = (\<lambda>b. [])\<rparr>"
  let ?d0 = "\<lparr>entries = None, readText = (\<lambda>f. None), readBytes = (\<lambda>f. None)\<rparr>"
  let ?files = "[''a.txt'', ''b.png'']"
  let ?d1 = "\<lparr>entries = Some ?files, readText = (\<lambda>f. None), readBytes = (\<lambda>f. None)\<rparr>"
  let ?fg = "[(''a'', \<lparr>textFile = Some ''a.txt'', imageFile = None\<rparr>),
              (''b'', \<lparr>textFile = None, imageFile = Some ''b.png''\<rparr>)]"
  have l: "entries ?d0 = None" by simp
  have e: "entries ?d1 = Some ?files" by simp
  have u: "\<exists>f\<in>set ?files. toLowerCase (extname f) = ''.txt'' \<and> readText ?d1 f = None"
    by code_simp
  have g: "groupFiles ?files ([], []) = Return (?fg, [])" by code_simp
  have k: "\<exists>k\<in>set (forInKeys ?fg []). \<not> readable ?d1 ?fg [] k" by code_simp
  from failed_scan_returns_empty[of ?d0 ?lib "[]" "[]" "[]" "[]"] l
  have 1: "getAnnouncements ?d0 = (Return [], [ReaddirError])
         \<and> getNewsArticles ?lib ?d0 [] = (Return [], [ReaddirError], [])"
    by blast
  from failed_scan_returns_empty[of ?d1 ?lib "[]" ?files ?fg "[]"] e u g k
  have 2: "(\<exists>f. getAnnouncements ?d1 = (Return [], [ReadFileError f]))
         \<and> (\<exists>f. getNewsArticles ?lib ?d1 [] = (Return [], [ReadFileError f], []))"
    by blast
  from 1 2 show ?thesis by blast
qed

subsection \<open>News articles\<close>

text \<open>
  Claim C10. The handler always returns a list. Every record in it has the field \<open>type\<close>
  with the value \<open>article\<close>, and when nothing was logged the list holds exactly one such
  record for each key that the second loop visits and whose group has a text or an image
  file name, in the order of the loop. So each of the three \<open>articles.push\<close> calls emits
  its record, and emits it with \<open>type: 'article'\<close>.
\<close>

theorem articles_have_type_article:
  "\<exists>articles logged proto1.
     getNewsArticles lib d proto = (Return articles, logged, proto1)
     \<and> list_all (\<lambda>a. type a = ''article'') articles
     \<and> (logged = [] \<longrightarrow>
          (\<exists>files fileGroups. entries d = Some files
             \<and> groupFiles files ([], proto) = Return (fileGroups, proto1)
             \<and> map title articles
                 = filter (pushes fileGroups proto1) (forInKeys fileGroups proto1)))"
proof (cases "newsTry lib d proto")
  case (Pair c proto1)
  show ?thesis
  proof (cases c)
    case (Return articles)
    with Pair have n: "newsTry lib d proto = (Return articles, proto1)" by simp
    then obtain files fg where e: "entries d = Some files"
      and g: "groupFiles files ([], proto) = Return (fg, proto1)"
      and l: "emitLoop lib d fg proto1 (forInKeys fg proto1) [] = Return articles"
      by (auto simp: newsTry_def split: option.splits completion.splits prod.splits)
    from emitLoop_types[OF l] have t: "list_all (\<lambda>a. type a = ''article'') articles" by simp
    from emitLoop_pushes[OF l] have p: "map title articles = filter (pushes fg proto1) (forInKeys fg proto1)"
      by simp
    from n have "getNewsArticles lib d proto = (Return articles, [], proto1)"
      by (simp add: getNewsArticles_def)
    with t p e g show ?thesis by blast
  next
    case (Throw e)
    with Pair show ?thesis by (simp add: getNewsArticles_def)
  qed
qed

text \<open>
  A listing with a text and an image of one stem, an image alone, a text alone and a
  file that is not recognized: the three records of the result carry \<open>type = 'article'\<close>.
\<close>

theorem articles_have_type_article_witness:
  "getNewsArticles
     \<lparr>mimeLookup = (\<lambda>f. if toLowerCase (extname f) = ''.png'' then Some ''image/png'' else None),
      base64 = (\<lambda>b. ''AAEC'')\<rparr>
     \<lparr>entries = Some [''a.txt'', ''b.png'', ''a.png'', ''notes.md'', ''c.txt''],
      readText = (\<lambda>f. Some (''  '' @ f @ '' '')), readBytes = (\<lambda>f. Some [0, 1, 2])\<rparr> []
   = (Return [\<lparr>type = ''article'', title = ''a'', description = ''a.txt'',
               imagePath = Some ''data:image/png;base64,AAEC''\<rparr>,
              \<lparr>type = ''article'', title = ''b'', description = [],
               imagePath = Some ''data:image/png;base64,AAEC''\<rparr>,
              \<lparr>type = ''article'', title = ''c'', description = ''c.txt'', imagePath = None\<rparr>],
      [], [])
   \<and> list_all (\<lambda>a. type a = ''article'')
        [\<lparr>type = ''article'', title = ''a'', description = ''a.txt'',
               imagePath = Some ''data:image/png;base64,AAEC''\<rparr>,
              \<lparr>type = ''article'', title = ''b'', description = [],
               imagePath = Some ''data:image/png;base64,AAEC''\<rparr>,
              \<lparr>type = ''article'', title = ''c'', description = ''c.txt'', imagePath = None\<rparr>]
   \<and> groupFiles [''a.txt'', ''b.png'', ''a.png'', ''notes.md'', ''c.txt''] ([], [])
       = Return ([(''a'', \<lparr>textFile = Some ''a.txt'', imageFile = Some ''a.png''\<rparr>),
                  (''b'', \<lparr>textFile = None, imageFile = Some ''b.png''\<rparr>),
                  (''notes'', \<lparr>textFile = None, imageFile = None\<rparr>),
                  (''c'', \<lparr>textFile = Some ''c.txt'', imageFile = None\<rparr>)], [])
   \<and> filter (pushes [(''a'', \<lparr>textFile = Some ''a.txt'', imageFile = Some ''a.png''\<rparr>),
                  (''b'', \<lparr>textFile = None, imageFile = Some ''b.png''\<rparr>),
                  (''notes'', \<lparr>textFile = None, imageFile = None\<rparr>),
                  (''c'', \<lparr>textFile = Some ''c.txt'', imageFile = None\<rparr>)] [])
        (forInKeys [(''a'', \<lparr>textFile = Some ''a.txt'', imageFile = Some ''a.png''\<rparr>),
                  (''b'', \<lparr>textFile = None, imageFile = Some ''b.png''\<rparr>),
                  (''notes'', \<lparr>textFile = None, imageFile = None\<rparr>),
                  (''c'', \<lparr>textFile = Some ''c.txt'', imageFile = None\<rparr>)] [])
      = [''a'', ''b'', ''c'']"
proof -
  let ?lib = "\<lparr>mimeLookup = (\<lambda>f. if toLowerCase (extname f) = ''.png'' then Some ''image/png'' else None),
      base64 = (\<lambda>b. ''AAEC'')\<rparr>"
  let ?files = "[''a.txt'', ''b.png'', ''a.png'', ''notes.md'', ''c.txt'']"
  let ?d = "\<lparr>entries = Some ?files,
      readText = (\<lambda>f. Some (''  '' @ f @ '' '')), readBytes = (\<lambda>f. Some [0, 1, 2])\<rparr>"
  let ?fg = "[(''a'', \<lparr>textFile = Some ''a.txt'', imageFile = Some ''a.png''\<rparr>),
                  (''b'', \<lparr>textFile = None, imageFile = Some ''b.png''\<rparr>),
                  (''notes'', \<lparr>textFile = None, imageFile = None\<rparr>),
                  (''c'', \<lparr>textFile = Some ''c.txt'', imageFile = None\<rparr>)]"
  let ?out = "[\<lparr>type = ''article'', title = ''a'', description = ''a.txt'',
               imagePath = Some ''data:image/png;base64,AAEC''\<rparr>,
              \<lparr>type = ''article'', title = ''b'', description = [],
               imagePath = Some ''data:image/png;base64,AAEC''\<rparr>,
              \<lparr>type = ''article'', title = ''c'', description = ''c.txt'', imagePath = None\<rparr>]"
  have run: "getNewsArticles ?lib ?d [] = (Return ?out, [], [])" by code_simp
  have g: "groupFiles ?files ([], []) = Return (?fg, [])" by code_simp
  from articles_have_type_article[of ?lib ?d "[]"] obtain articles logged proto1 where
    r: "getNewsArticles ?lib ?d [] = (Return articles, logged, proto1)"
    and t: "list_all (\<lambda>a. type a = ''article'') articles"
    and p: "logged = [] \<longrightarrow>
          (\<exists>files fileGroups. entries ?d = Some files
             \<and> groupFiles files ([], []) = Return (fileGroups, proto1)
             \<and> map title articles
                 = filter (pushes fileGroups proto1) (forInKeys fileGroups proto1))"
    by blast
  from r run have eq: "articles = ?out" "logged = []" "proto1 = []" by simp_all
  with p obtain files fileGroups where f: "entries ?d = Some files"
    and gg: "groupFiles files ([], []) = Return (fileGroups, [])"
    and m: "map title articles = filter (pushes fileGroups []) (forInKeys fileGroups [])"
    by blast
  from f have "files = ?files" by simp
  with gg g have "fileGroups = ?fg" by (simp del: groupFiles.simps)
  with m have "map title articles = filter (pushes ?fg []) (forInKeys ?fg [])" by simp
  with eq have "filter (pushes ?fg []) (forInKeys ?fg []) = [''a'', ''b'', ''c'']" by simp
  with run g t eq show ?thesis by simp
qed

subsection \<open>The forecast\<close>

text \<open>
  Claim C6. Every record that \<open>processForecastData\<close> returns belongs to a day bucket that
  is not empty; its \<open>temp_min\<close> is the least and its \<open>temp_max\<close> the greatest temperature of
  the bucket, so \<open>temp_min \<le> temp_max\<close>.
\<close>

theorem dayForecast_temperatures:
  assumes "processForecastData now items = Return out" and "r \<in> set out"
  shows "dayBucket items (date r) \<noteq> []
       \<and> temp_min r = Min (temp ` set (dayBucket items (date r)))
       \<and> temp_max r = Max (temp ` set (dayBucket items (date r)))
       \<and> temp_min r \<le> temp_max r"
proof -
  let ?b = "dayBucket items (date r)"
  from processForecastData_records[OF assms] have ne: "?b \<noteq> []" and r: "r = dayRecord (date r) ?b"
    by auto
  from dayRecord_temps[OF ne, of "date r"] r
  have mn: "temp_min r = Min (temp ` set ?b)" and mx: "temp_max r = Max (temp ` set ?b)" by auto
  from ne obtain i where i: "i \<in> set ?b" by (cases ?b) auto
  then have "Min (temp ` set ?b) \<le> temp i" "temp i \<le> Max (temp ` set ?b)" by auto
  then have "Min (temp ` set ?b) \<le> Max (temp ` set ?b)" by (rule order_trans)
  with ne mn mx show ?thesis by simp
qed

theorem dayForecast_temperatures_witness:
  "processForecastData 0
     [\<lparr>dt = 0, temp = Finite 70, main = ''Rain''\<rparr>, \<lparr>dt = 3600, temp = Finite 80, main = ''Clear''\<rparr>,
      \<lparr>dt = 86400, temp = Finite 60, main = ''Clear''\<rparr>]
   = Return [\<lparr>date = ''1970-01-01'', temp_min = Finite 70, temp_max = Finite 80, condition = Some ''Rain''\<rparr>,
             \<lparr>date = ''1970-01-02'', temp_min = Finite 60, temp_max = Finite 60, condition = Some ''Clear''\<rparr>]
   \<and> Finite 70 = Min (temp ` set (dayBucket
         [\<lparr>dt = 0, temp = Finite 70, main = ''Rain''\<rparr>, \<lparr>dt = 3600, temp = Finite 80, main = ''Clear''\<rparr>,
          \<lparr>dt = 86400, temp = Finite 60, main = ''Clear''\<rparr>] ''1970-01-01''))
   \<and> Finite 80 = Max (temp ` set (dayBucket
         [\<lparr>dt = 0, temp = Finite 70, main = ''Rain''\<rparr>, \<lparr>dt = 3600, temp = Finite 80, main = ''Clear''\<rparr>,
          \<lparr>dt = 86400, temp = Finite 60, main = ''Clear''\<rparr>] ''1970-01-01''))"
proof -
  let ?items = "[\<lparr>dt = 0, temp = Finite 70, main = ''Rain''\<rparr>, \<lparr>dt = 3600, temp = Finite 80, main = ''Clear''\<rparr>,
      \<lparr>dt = 86400, temp = Finite 60, main = ''Clear''\<rparr>]"
  let ?r = "\<lparr>date = ''1970-01-01'', temp_min = Finite 70, temp_max = Finite 80, condition = Some ''Rain''\<rparr>"
  let ?out = "[?r, \<lparr>date = ''1970-01-02'', temp_min = Finite 60, temp_max = Finite 60, condition = Some ''Clear''\<rparr>]"
  have run: "processForecastData 0 ?items = Return ?out" by code_simp
  have mem: "?r \<in> set ?out" by simp
  from dayForecast_temperatures[OF run mem] run show ?thesis by simp
qed

text \<open>
  Claim C3, as amended. For a record whose bucket holds no label that is the name of a
  property of \<open>Object.prototype\<close>, the condition is the first label, in the enumeration
  order of \<open>conditionCounts\<close>, whose occurrence count in the bucket is the highest. That
  order is the order of first occurrence in the bucket when no label is an array index.
  So a tie goes to the label met first, not to the label that first reaches the highest
  count.
\<close>

theorem mostCommon_condition:
  assumes "processForecastData now items = Return out" and "r \<in> set out"
    and "set (map main (dayBucket items (date r))) \<inter> set prototypeKeys = {}"
  shows "map main (dayBucket items (date r)) \<noteq> []
       \<and> condition r =
           List.find (\<lambda>l. \<forall>l'\<in>set (map main (dayBucket items (date r))).
                          count_list (map main (dayBucket items (date r))) l'
                            \<le> count_list (map main (dayBucket items (date r))) l)
             (enumerationOrder (firstSeen (map main (dayBucket items (date r)))))
       \<and> (\<exists>l. condition r = Some l)
       \<and> (\<not> (\<exists>l\<in>set (map main (dayBucket items (date r))). isArrayIndex l) \<longrightarrow>
            enumerationOrder (firstSeen (map main (dayBucket items (date r))))
              = firstSeen (map main (dayBucket items (date r))))"
proof -
  let ?b = "dayBucket items (date r)"
  let ?ls = "map main ?b"
  let ?ks = "enumerationOrder (firstSeen ?ls)"
  let ?P = "\<lambda>l. \<forall>l'\<in>set ?ls. count_list ?ls l' \<le> count_list ?ls l"
  from processForecastData_records[OF assms(1,2)] have ne: "?b \<noteq> []" and r: "r = dayRecord (date r) ?b"
    by auto
  from dayRecord_condition[OF assms(3), of "date r"] r
  have c: "condition r = List.find ?P ?ks" by simp
  from ne have "?ls \<noteq> []" by simp
  from exists_maximal[OF this, of "count_list ?ls"] obtain j where "j \<in> set ?ls" "?P j" by blast
  then have "\<exists>x. x \<in> set ?ks \<and> ?P x" by auto
  then have "List.find ?P ?ks \<noteq> None" unfolding find_None_iff by blast
  with c have ex: "\<exists>l. condition r = Some l" by auto
  have plain: "\<not> (\<exists>l\<in>set ?ls. isArrayIndex l) \<longrightarrow> ?ks = firstSeen ?ls"
    using enumerationOrder_plain[of "firstSeen ?ls"] by simp
  from ne c ex plain show ?thesis by simp
qed

theorem mostCommon_condition_witness:
  "processForecastData 0
     [\<lparr>dt = 0, temp = Finite 70, main = ''Rain''\<rparr>, \<lparr>dt = 3600, temp = Finite 80, main = ''Clear''\<rparr>,
      \<lparr>dt = 7200, temp = Finite 60, main = ''Rain''\<rparr>]
   = Return [\<lparr>date = ''1970-01-01'', temp_min = Finite 60, temp_max = Finite 80, condition = Some ''Rain''\<rparr>]
   \<and> Some ''Rain'' = List.find (\<lambda>l. \<forall>l'\<in>set [''Rain'', ''Clear'', ''Rain''].
          count_list [''Rain'', ''Clear'', ''Rain''] l' \<le> count_list [''Rain'', ''Clear'', ''Rain''] l)
        (enumerationOrder (firstSeen [''Rain'', ''Clear'', ''Rain'']))"
proof -
  let ?items = "[\<lparr>dt = 0, temp = Finite 70, main = ''Rain''\<rparr>, \<lparr>dt = 3600, temp = Finite 80, main = ''Clear''\<rparr>,
      \<lparr>dt = 7200, temp = Finite 60, main = ''Rain''\<rparr>]"
  let ?r = "\<lparr>date = ''1970-01-01'', temp_min = Finite 60, temp_max = Finite 80, condition = Some ''Rain''\<rparr>"
  have run: "processForecastData 0 ?items = Return [?r]" by code_simp
  have mem: "?r \<in> set [?r]" by simp
  have b: "map main (dayBucket ?items (date ?r)) = [''Rain'', ''Clear'', ''Rain'']" by code_simp
  have p: "set (map main (dayBucket ?items (date ?r))) \<inter> set prototypeKeys = {}"
    unfolding b by (simp add: prototypeKeys_def prototypeMethods_def)
  from mostCommon_condition[OF run mem p] run show ?thesis unfolding b by simp
qed

text \<open>
  Claim C3 as stated fails: in the bucket Rain, Clear, Clear, Rain both labels occur twice;
  Clear is the first to reach two, but the function answers Rain.
\<close>

theorem first_to_reach_max_counterexample:
  "processForecastData 0
     [\<lparr>dt = 0, temp = Finite 70, main = ''Rain''\<rparr>, \<lparr>dt = 3600, temp = Finite 80, main = ''Clear''\<rparr>,
      \<lparr>dt = 7200, temp = Finite 60, main = ''Clear''\<rparr>, \<lparr>dt = 10800, temp = Finite 65, main = ''Rain''\<rparr>]
   = Return [\<lparr>date = ''1970-01-01'', temp_min = Finite 60, temp_max = Finite 80, condition = Some ''Rain''\<rparr>]
   \<and> specFirstToReachMax [''Rain'', ''Clear'', ''Clear'', ''Rain''] = Some ''Clear''"
  by code_simp

text \<open>
  Claim C5, as amended. When every timestamp is a time value that a Date can hold, and
  \<open>today\<close> is the date string of the time of the call, the function returns one record for
  each of the first four (or fewer, when there are fewer) distinct date strings of the
  samples that are not below \<open>today\<close> in string order, in ascending order; an empty input
  gives an empty output. String order is calendar order for the years 0000 to 9999.
\<close>

theorem next_four_dates:
  assumes "\<forall>i\<in>set items. validTime (dt i * 1000)" and "toISODate now = Some today"
  shows "\<exists>out. processForecastData now items = Return out
       \<and> map date out = take 4 (sorted_list_of_set
                           {d. today \<le> d \<and> (\<exists>i\<in>set items. dateString i = Some d)})
       \<and> length out = min 4 (card {d. today \<le> d \<and> (\<exists>i\<in>set items. dateString i = Some d)})
       \<and> sorted (map date out) \<and> distinct (map date out)
       \<and> (items = [] \<longrightarrow> out = [])"
proof -
  let ?S = "{d. today \<le> d \<and> (\<exists>i\<in>set items. dateString i = Some d)}"
  let ?out = "map (\<lambda>d. dayRecord d (dayBucket items d)) (take 4 (sorted_list_of_set ?S))"
  have v: "\<forall>i\<in>set items. dateString i \<noteq> None"
    using assms(1) toISODate_valid by (auto simp: dateString_def)
  have run: "processForecastData now items = Return ?out"
    by (rule processForecastData_spec[OF v assms(2)])
  have dates: "map date ?out = take 4 (sorted_list_of_set ?S)"
    by (simp add: dayRecord_def Let_def comp_def)
  have fin: "finite ?S" by (rule finite_dates)
  have len: "length ?out = min 4 (card ?S)" by (simp add: min.commute)
  have srt: "sorted (map date ?out)" unfolding dates by (rule sorted_wrt_take) simp
  have dst: "distinct (map date ?out)" unfolding dates by (rule distinct_take) simp
  have emp: "items = [] \<longrightarrow> ?out = []" by simp
  from run dates len srt dst emp show ?thesis by blast
qed

theorem next_four_dates_witness:
  "\<exists>out. processForecastData 86400000
       [\<lparr>dt = 0, temp = Finite 1, main = ''Rain''\<rparr>, \<lparr>dt = 432000, temp = Finite 2, main = ''Rain''\<rparr>,
        \<lparr>dt = 86400, temp = Finite 3, main = ''Rain''\<rparr>, \<lparr>dt = 172800, temp = Finite 4, main = ''Rain''\<rparr>,
        \<lparr>dt = 345600, temp = Finite 5, main = ''Rain''\<rparr>, \<lparr>dt = 259200, temp = Finite 6, main = ''Rain''\<rparr>,
        \<lparr>dt = 90000, temp = Finite 7, main = ''Snow''\<rparr>] = Return out
     \<and> map date out = [''1970-01-02'', ''1970-01-03'', ''1970-01-04'', ''1970-01-05'']
     \<and> map date out = take 4 (sorted_list_of_set {d. ''1970-01-02'' \<le> d \<and> (\<exists>i\<in>set
       [\<lparr>dt = 0, temp = Finite 1, main = ''Rain''\<rparr>, \<lparr>dt = 432000, temp = Finite 2, main = ''Rain''\<rparr>,
        \<lparr>dt = 86400, temp = Finite 3, main = ''Rain''\<rparr>, \<lparr>dt = 172800, temp = Finite 4, main = ''Rain''\<rparr>,
        \<lparr>dt = 345600, temp = Finite 5, main = ''Rain''\<rparr>, \<lparr>dt = 259200, temp = Finite 6, main = ''Rain''\<rparr>,
        \<lparr>dt = 90000, temp = Finite 7, main = ''Snow''\<rparr>]. dateString i = Some d)})"
proof -
  let ?items = "[\<lparr>dt = 0, temp = Finite 1, main = ''Rain''\<rparr>, \<lparr>dt = 432000, temp = Finite 2, main = ''Rain''\<rparr>,
        \<lparr>dt = 86400, temp = Finite 3, main = ''Rain''\<rparr>, \<lparr>dt = 172800, temp = Finite 4, main = ''Rain''\<rparr>,
        \<lparr>dt = 345600, temp = Finite 5, main = ''Rain''\<rparr>, \<lparr>dt = 259200, temp = Finite 6, main = ''Rain''\<rparr>,
        \<lparr>dt = 90000, temp = Finite 7, main = ''Snow''\<rparr>]"
  have v: "\<forall>i\<in>set ?items. validTime (dt i * 1000)" by (simp add: validTime_def)
  have t: "toISODate 86400000 = Some ''1970-01-02''" by code_simp
  have run: "map date (case processForecastData 86400000 ?items of Return out \<Rightarrow> out | Throw e \<Rightarrow> [])
               = [''1970-01-02'', ''1970-01-03'', ''1970-01-04'', ''1970-01-05'']" by code_simp
  from next_four_dates[OF v t] obtain out where
    o: "processForecastData 86400000 ?items = Return out"
    and d: "map date out = take 4 (sorted_list_of_set
              {d. ''1970-01-02'' \<le> d \<and> (\<exists>i\<in>set ?items. dateString i = Some d)})"
    by blast
  from run o have "map date out = [''1970-01-02'', ''1970-01-03'', ''1970-01-04'', ''1970-01-05'']" by simp
  with o d show ?thesis by metis
qed

text \<open>
  Claim C5 as stated fails on a timestamp outside the range of Date: \<open>toISOString\<close> throws
  and the function returns nothing.
\<close>

theorem invalid_timestamp_counterexample:
  "processForecastData 0 [\<lparr>dt = 10000000000000, temp = Finite 70, main = ''Rain''\<rparr>] = Throw RangeError"
  by code_simp

text \<open>
  Claim C9, as amended. A record whose bucket holds at least one label that is not the
  name of a property of \<open>Object.prototype\<close> has a condition that is not \<open>null\<close>.
\<close>

theorem condition_not_null:
  assumes "processForecastData now items = Return out" and "r \<in> set out"
    and "\<exists>l\<in>set (map main (dayBucket items (date r))). l \<notin> set prototypeKeys"
  shows "\<exists>c. condition r = Some c"
proof -
  from processForecastData_records[OF assms(1,2)]
  have r: "r = dayRecord (date r) (dayBucket items (date r))" by simp
  from assms(3) obtain l where "l \<in> set (map main (dayBucket items (date r)))" "l \<notin> set prototypeKeys"
    by blast
  from dayRecord_condition_some[OF this, of "date r"] r show ?thesis by simp
qed

theorem condition_not_null_witness:
  "processForecastData 0
     [\<lparr>dt = 0, temp = Finite 70, main = ''constructor''\<rparr>, \<lparr>dt = 3600, temp = Finite 80, main = ''Snow''\<rparr>]
   = Return [\<lparr>date = ''1970-01-01'', temp_min = Finite 70, temp_max = Finite 80, condition = Some ''Snow''\<rparr>]
   \<and> (\<exists>c. condition \<lparr>date = ''1970-01-01'', temp_min = Finite 70, temp_max = Finite 80,
                       condition = Some ''Snow''\<rparr> = Some c)"
proof -
  let ?items = "[\<lparr>dt = 0, temp = Finite 70, main = ''constructor''\<rparr>, \<lparr>dt = 3600, temp = Finite 80, main = ''Snow''\<rparr>]"
  let ?r = "\<lparr>date = ''1970-01-01'', temp_min = Finite 70, temp_max = Finite 80, condition = Some ''Snow''\<rparr>"
  have run: "processForecastData 0 ?items = Return [?r]" by code_simp
  have mem: "?r \<in> set [?r]" by simp
  have b: "map main (dayBucket ?items (date ?r)) = [''constructor'', ''Snow'']" by code_simp
  have p: "\<exists>l\<in>set (map main (dayBucket ?items (date ?r))). l \<notin> set prototypeKeys"
    unfolding b by (simp add: prototypeKeys_def prototypeMethods_def)
  from condition_not_null[OF run mem p] run show ?thesis by simp
qed

text \<open>
  Claim C9 as stated fails: \<open>conditionCounts['constructor']\<close> finds the inherited method,
  the increment stores NaN, and for a bucket whose only label is \<open>constructor\<close> the
  condition stays \<open>null\<close>.
\<close>

theorem prototype_label_condition_null:
  "processForecastData 0 [\<lparr>dt = 0, temp = Finite 70, main = ''constructor''\<rparr>]
   = Return [\<lparr>date = ''1970-01-01'', temp_min = Finite 70, temp_max = Finite 70, condition = None\<rparr>]"
  by code_simp

subsection \<open>Order and content of the news articles\<close>

text \<open>
  Claim C2, as amended. Take a listing in which every extension is spelled in lower case
  and no stem is the name of a property of \<open>Object.prototype\<close>, and a call that starts
  with no enumerable property on \<open>Object.prototype\<close>. Then the handler returns a list; when
  nothing was logged, the titles are the stems that have a recognized file, in the
  enumeration order of the stem table: the stems that are array indices first, in
  ascending numeric order, then the other stems in the order of their first occurrence
  in the listing. (When a read failed, the list is empty.)
\<close>

theorem news_order:
  assumes "entries d = Some files"
    and "\<forall>f\<in>set files. extname f = toLowerCase (extname f)"
    and "\<forall>f\<in>set files. specStem f \<notin> set prototypeKeys"
  shows "\<exists>articles logged. getNewsArticles lib d [] = (Return articles, logged, [])
     \<and> map title articles =
         (if logged = []
          then filter (\<lambda>s. \<exists>f\<in>set files. specStem f = s \<and> recognized f)
                 (enumerationOrder (firstSeen (map specStem files)))
          else [])"
proof -
  have k: "\<forall>f\<in>set files. fileKey f = specStem f"
    using assms(2) fileKey_lower by blast
  then have m: "map fileKey files = map specStem files" by simp
  have p: "\<forall>f\<in>set files. fileKey f \<notin> set prototypeKeys" using k assms(3) by simp
  have q: "(\<lambda>s. \<exists>f\<in>set files. fileKey f = s \<and> recognized f)
          = (\<lambda>s. \<exists>f\<in>set files. specStem f = s \<and> recognized f)"
    using k by auto
  from news_titles[OF assms(1) p, of lib] show ?thesis unfolding m q .
qed

theorem news_order_witness:
  "\<exists>articles. getNewsArticles \<lparr>mimeLookup = (\<lambda>f. None), base64 = (\<lambda>b. [])\<rparr>
     \<lparr>entries = Some [''b.txt'', ''10.txt'', ''notes.md'', ''9.txt'', ''b.png''], readText = (\<lambda>f. Some f),
      readBytes = (\<lambda>f. Some [])\<rparr> [] = (Return articles, [], [])
   \<and> map title articles = [''9'', ''10'', ''b'']
   \<and> map title articles
       = filter (\<lambda>s. \<exists>f\<in>set [''b.txt'', ''10.txt'', ''notes.md'', ''9.txt'', ''b.png'']. specStem f = s \<and> recognized f)
           (enumerationOrder (firstSeen (map specStem [''b.txt'', ''10.txt'', ''notes.md'', ''9.txt'', ''b.png''])))"
proof -
  let ?lib = "\<lparr>mimeLookup = (\<lambda>f. None), base64 = (\<lambda>b. [])\<rparr>"
  let ?files = "[''b.txt'', ''10.txt'', ''notes.md'', ''9.txt'', ''b.png'']"
  let ?d = "\<lparr>entries = Some ?files, readText = (\<lambda>f. Some f), readBytes = (\<lambda>f. Some [])\<rparr>"
  have e: "entries ?d = Some ?files" by simp
  have l: "\<forall>f\<in>set ?files. extname f = toLowerCase (extname f)" by code_simp
  have p: "\<forall>f\<in>set ?files. specStem f \<notin> set prototypeKeys" by code_simp
  have run: "getNewsArticles ?lib ?d []
      = (Return [\<lparr>type = ''article'', title = ''9'', description = ''9.txt'', imagePath = None\<rparr>,
                 \<lparr>type = ''article'', title = ''10'', description = ''10.txt'', imagePath = None\<rparr>,
                 \<lparr>type = ''article'', title = ''b'', description = ''b.txt'',
                  imagePath = Some ''data:application/octet-stream;base64,''\<rparr>], [], [])"
    by code_simp
  from news_order[OF e l p, of ?lib] run show ?thesis by auto
qed

text \<open>
  Claim C2 as stated fails: with the entries b.txt, 10.txt, 9.txt the stems first occur in
  the order b, 10, 9, and the articles come out in the order 9, 10, b.
\<close>

theorem numeric_stems_counterexample:
  "getNewsArticles \<lparr>mimeLookup = (\<lambda>f. None), base64 = (\<lambda>b. [])\<rparr>
     \<lparr>entries = Some [''b.txt'', ''10.txt'', ''9.txt''], readText = (\<lambda>f. Some f),
      readBytes = (\<lambda>f. None)\<rparr> []
   = (Return [\<lparr>type = ''article'', title = ''9'', description = ''9.txt'', imagePath = None\<rparr>,
              \<lparr>type = ''article'', title = ''10'', description = ''10.txt'', imagePath = None\<rparr>,
              \<lparr>type = ''article'', title = ''b'', description = ''b.txt'', imagePath = None\<rparr>], [], [])
   \<and> firstSeen (map specStem [''b.txt'', ''10.txt'', ''9.txt'']) = [''b'', ''10'', ''9'']"
  by code_simp

text \<open>
  Claim C1 fails on the code: the extension is lower-cased before \<open>path.basename\<close> strips
  it, and \<open>path.basename\<close> compares case-sensitively, so the entry a.JPG gets the title
  a.JPG, not its stem a.
\<close>

theorem uppercase_extension_stays_in_title:
  "getNewsArticles
     \<lparr>mimeLookup = (\<lambda>f. if toLowerCase (extname f) = ''.jpg'' then Some ''image/jpeg'' else None),
      base64 = (\<lambda>b. ''AAEC'')\<rparr>
     \<lparr>entries = Some [''a.JPG''], readText = (\<lambda>f. None), readBytes = (\<lambda>f. Some [0, 1, 2])\<rparr> []
   = (Return [\<lparr>type = ''article'', title = ''a.JPG'', description = [],
               imagePath = Some ''data:image/jpeg;base64,AAEC''\<rparr>], [], [])
   \<and> extname ''a.JPG'' = ''.JPG'' \<and> specStem ''a.JPG'' = ''a''"
  by code_simp

text \<open>
  Claim C8 fails on the code for the same reason: a.txt and a.JPG are a text file and an
  image file of the stem a, and the handler returns two articles, the first without an
  image.
\<close>

theorem uppercase_image_not_paired:
  "getNewsArticles
     \<lparr>mimeLookup = (\<lambda>f. if toLowerCase (extname f) = ''.jpg'' then Some ''image/jpeg'' else None),
      base64 = (\<lambda>b. ''AAEC'')\<rparr>
     \<lparr>entries = Some [''a.txt'', ''a.JPG''], readText = (\<lambda>f. Some ''  hello  ''),
      readBytes = (\<lambda>f. Some [0, 1, 2])\<rparr> []
   = (Return [\<lparr>type = ''article'', title = ''a'', description = ''hello'', imagePath = None\<rparr>,
              \<lparr>type = ''article'', title = ''a.JPG'', description = [],
               imagePath = Some ''data:image/jpeg;base64,AAEC''\<rparr>], [], [])"
  by code_simp

text \<open>
  What holds of claim C8. Take a listing in which no key is the name of a property of
  \<open>Object.prototype\<close>, whose recognized entries can all be read, and a call that starts
  with no enumerable property on \<open>Object.prototype\<close>. Then the handler logs nothing and
  returns, for every key, exactly the articles of \<open>articleFor\<close>: one article with the
  trimmed text and the data URI for a key with a text file and an image file, one with
  the empty description and the data URI for a key with an image file only, one with
  the trimmed text and no image for a key with a text file only, and none for a key
  without a recognized file.
\<close>

theorem news_articles_by_key:
  assumes "entries d = Some files"
    and "\<forall>f\<in>set files. fileKey f \<notin> set prototypeKeys"
    and "\<forall>f\<in>set files. (isText f \<longrightarrow> readText d f = Some (texts f))
                         \<and> (isImage f \<longrightarrow> readBytes d f = Some (images f))"
  shows "\<exists>articles. getNewsArticles lib d [] = (Return articles, [], [])
     \<and> articles = concat (map (articleFor lib texts images files)
                             (enumerationOrder (firstSeen (map fileKey files))))
     \<and> (\<forall>s. filter (\<lambda>a. title a = s) articles = articleFor lib texts images files s)"
proof -
  let ?ks = "enumerationOrder (firstSeen (map fileKey files))"
  let ?A = "articleFor lib texts images files"
  have g: "groupFiles files ([], []) = Return (groupsOf files, [])"
    by (rule groupFiles_groupsOf[OF assms(2)])
  have sub: "set ?ks \<subseteq> set (map fileKey files)" by simp
  have e: "emitLoop lib d (groupsOf files) [] ?ks [] = Return (concat (map ?A ?ks))"
    using emitLoop_articles[OF assms(3) sub, where lib = lib and acc = "[]"] by simp
  have run: "getNewsArticles lib d [] = (Return (concat (map ?A ?ks)), [], [])"
    using assms(1) g e by (simp add: getNewsArticles_def newsTry_def forInKeys_plain ownKeys_groupsOf)
  have d: "distinct ?ks" by (intro distinct_enumerationOrder) simp
  have f: "filter (\<lambda>a. title a = s) (concat (map ?A ?ks)) = ?A s" for s
  proof -
    have "filter (\<lambda>a. title a = s) (concat (map ?A ?ks)) = (if s \<in> set ?ks then ?A s else [])"
      by (rule filter_concat_titles[OF d]) (rule articleFor_title)
    moreover have "s \<notin> set ?ks \<Longrightarrow> ?A s = []"
      by (rule articleFor_absent) simp
    ultimately show ?thesis by auto
  qed
  from run f show ?thesis by blast
qed

end
